theory Spec2Isabelle
  imports Complex_Main
begin

section \<open>pytyrant: a client for the binary Tokyo Tyrant protocol\<close>

text \<open>
  A shallow embedding of \<^verbatim>\<open>src/pytyrant.py\<close>. Python 2 byte strings (\<^verbatim>\<open>str\<close>) are
  \<^typ>\<open>string\<close>: a list of 8-bit characters. Python integers are \<^typ>\<open>int\<close>. Python floats are
  modelled by the real numbers they denote.
\<close>

subsection \<open>Exceptions and outcomes\<close>

text \<open>
  The exceptions the module can raise. \<open>TyrantError\<close> carries the status code of the
  server; \<open>StructError\<close> is \<^verbatim>\<open>struct.error\<close>, raised when a value does not fit the field it
  is packed into.
\<close>

datatype exn =
    TyrantError nat
  | KeyError
  | TypeError
  | AssertionError
  | IndexError
  | ValueError
  | StructError

text \<open>
  A call returns a value, raises, or never returns. \<open>Diverge\<close> is the outcome of a receive loop
  that waits for bytes the peer never sends.
\<close>

datatype 'a res = Ret 'a | Raise exn | Diverge

subsection \<open>Protocol constants\<close>

definition MAGIC :: int where "MAGIC = 200"

definition RDBMONOULOG :: int where "RDBMONOULOG = 1"
definition RDBXOLCKREC :: int where "RDBXOLCKREC = 1"
definition RDBXOLCKGLB :: int where "RDBXOLCKGLB = 2"

definition RDBQOSTRASC :: int where "RDBQOSTRASC = 0"
definition RDBQOSTRDESC :: int where "RDBQOSTRDESC = 1"
definition RDBQONUMASC :: int where "RDBQONUMASC = 2"
definition RDBQONUMDESC :: int where "RDBQONUMDESC = 3"

text \<open>The members of class \<^verbatim>\<open>C\<close>, the opcodes.\<close>

definition C_put :: int where "C_put = 16"
definition C_putkeep :: int where "C_putkeep = 17"
definition C_putcat :: int where "C_putcat = 18"
definition C_putshl :: int where "C_putshl = 19"
definition C_putnr :: int where "C_putnr = 24"
definition C_out :: int where "C_out = 32"
definition C_get :: int where "C_get = 48"
definition C_mget :: int where "C_mget = 49"
definition C_vsiz :: int where "C_vsiz = 56"
definition C_iterinit :: int where "C_iterinit = 80"
definition C_iternext :: int where "C_iternext = 81"
definition C_fwmkeys :: int where "C_fwmkeys = 88"
definition C_addint :: int where "C_addint = 96"
definition C_adddouble :: int where "C_adddouble = 97"
definition C_ext :: int where "C_ext = 104"
definition C_sync :: int where "C_sync = 112"
definition C_vanish :: int where "C_vanish = 113"
definition C_copy :: int where "C_copy = 114"
definition C_restore :: int where "C_restore = 115"
definition C_setmst :: int where "C_setmst = 120"
definition C_rnum :: int where "C_rnum = 128"
definition C_size :: int where "C_size = 129"
definition C_stat :: int where "C_stat = 136"
definition C_misc :: int where "C_misc = 144"

text \<open>\<^verbatim>\<open>QUERY_OPERATIONS\<close>: a lookup that fails (\<open>None\<close>) is Python's \<^verbatim>\<open>KeyError\<close>.\<close>

definition QUERY_OPERATIONS :: "(string \<times> string) list" where
  "QUERY_OPERATIONS =
    [(''streq'', ''0''), (''strinc'', ''1''), (''strbw'', ''2''), (''strew'', ''3''),
     (''strand'', ''4''), (''stror'', ''5''), (''stroreq'', ''6''), (''strrx'', ''7''),
     (''numeq'', ''8''), (''numgt'', ''9''), (''numge'', ''10''), (''numlt'', ''11''),
     (''numle'', ''12''), (''numbt'', ''13''), (''numoreq'', ''14'')]"

subsection \<open>struct.pack and struct.unpack, big-endian\<close>

text \<open>\<open>be n v\<close> is the \<open>n\<close>-byte big-endian encoding of \<open>v\<close>, \<open>unbe\<close> its decoding.\<close>

primrec be :: "nat \<Rightarrow> nat \<Rightarrow> string" where
  "be 0 v = []"
| "be (Suc n) v = be n (v div 256) @ [char_of (v mod 256)]"

definition unbe :: "string \<Rightarrow> nat" where
  "unbe bs = foldl (\<lambda>acc c. acc * 256 + of_char c) 0 bs"

text \<open>The format characters used by the module: \<^verbatim>\<open>B\<close> (1 byte), \<^verbatim>\<open>I\<close> (4), \<^verbatim>\<open>Q\<close> (8).\<close>

datatype fmt = B | I | Q

primrec fmt_size :: "fmt \<Rightarrow> nat" where
  "fmt_size B = 1"
| "fmt_size I = 4"
| "fmt_size Q = 8"

text \<open>
  \<^verbatim>\<open>struct.pack('>...', v1, ...)\<close>: every value must fit its unsigned field, and there must be
  one value for each format character; otherwise \<^verbatim>\<open>struct.error\<close>.
\<close>

fun struct_pack :: "fmt list \<Rightarrow> int list \<Rightarrow> exn + string" where
  "struct_pack [] [] = Inr []"
| "struct_pack (f # fs) (v # vs) =
     (if 0 \<le> v \<and> v < 256 ^ fmt_size f
      then (case struct_pack fs vs of
              Inl e \<Rightarrow> Inl e
            | Inr r \<Rightarrow> Inr (be (fmt_size f) (nat v) @ r))
      else Inl StructError)"
| "struct_pack _ _ = Inl StructError"

text \<open>\<open>len\<close> of a byte string, as the Python integer it is.\<close>

definition len :: "'a list \<Rightarrow> int" where
  "len xs = int (length xs)"

subsection \<open>Request frames\<close>

definition t0 :: "int \<Rightarrow> exn + string list" where
  "t0 code =
     (if 0 \<le> code \<and> code < 256 then Inr [[char_of MAGIC] @ [char_of code]]
      else Inl ValueError)"

definition t1 :: "int \<Rightarrow> string \<Rightarrow> exn + string list" where
  "t1 code key =
     (case struct_pack [B, B, I] [MAGIC, code, len key] of
        Inl e \<Rightarrow> Inl e
      | Inr h \<Rightarrow> Inr [h, key])"

text \<open>The loop of \<^verbatim>\<open>_t1FN\<close> and \<^verbatim>\<open>_tN\<close>: each argument preceded by its 4-byte length.\<close>

fun extend_args :: "string list \<Rightarrow> string list \<Rightarrow> exn + string list" where
  "extend_args outlst [] = Inr outlst"
| "extend_args outlst (k # ks) =
     (case struct_pack [I] [len k] of
        Inl e \<Rightarrow> Inl e
      | Inr l \<Rightarrow> extend_args (outlst @ [l, k]) ks)"

definition t1FN :: "int \<Rightarrow> string \<Rightarrow> int \<Rightarrow> string list \<Rightarrow> exn + string list" where
  "t1FN code func opts args =
     (case struct_pack [B, B, I, I, I] [MAGIC, code, len func, opts, len args] of
        Inl e \<Rightarrow> Inl e
      | Inr h \<Rightarrow> extend_args [h, func] args)"

definition t1R :: "int \<Rightarrow> string \<Rightarrow> int \<Rightarrow> exn + string list" where
  "t1R code key msec =
     (case struct_pack [B, B, I, Q] [MAGIC, code, len key, msec] of
        Inl e \<Rightarrow> Inl e
      | Inr h \<Rightarrow> Inr [h, key])"

definition t1M :: "int \<Rightarrow> string \<Rightarrow> int \<Rightarrow> exn + string list" where
  "t1M code key count =
     (case struct_pack [B, B, I, I] [MAGIC, code, len key, count] of
        Inl e \<Rightarrow> Inl e
      | Inr h \<Rightarrow> Inr [h, key])"

definition tN :: "int \<Rightarrow> string list \<Rightarrow> exn + string list" where
  "tN code klst =
     (case struct_pack [B, B, I] [MAGIC, code, len klst] of
        Inl e \<Rightarrow> Inl e
      | Inr h \<Rightarrow> extend_args [h] klst)"

definition t2 :: "int \<Rightarrow> string \<Rightarrow> string \<Rightarrow> exn + string list" where
  "t2 code key val =
     (case struct_pack [B, B, I, I] [MAGIC, code, len key, len val] of
        Inl e \<Rightarrow> Inl e
      | Inr h \<Rightarrow> Inr [h, key, val])"

definition t2W :: "int \<Rightarrow> string \<Rightarrow> string \<Rightarrow> int \<Rightarrow> exn + string list" where
  "t2W code key val width =
     (case struct_pack [B, B, I, I, I] [MAGIC, code, len key, len val, width] of
        Inl e \<Rightarrow> Inl e
      | Inr h \<Rightarrow> Inr [h, key, val])"

definition t3F :: "int \<Rightarrow> string \<Rightarrow> int \<Rightarrow> string \<Rightarrow> string \<Rightarrow> exn + string list" where
  "t3F code func opts key val =
     (case struct_pack [B, B, I, I, I, I] [MAGIC, code, len func, opts, len key, len val] of
        Inl e \<Rightarrow> Inl e
      | Inr h \<Rightarrow> Inr [h, func, key, val])"

definition tDouble :: "int \<Rightarrow> string \<Rightarrow> int \<Rightarrow> int \<Rightarrow> exn + string list" where
  "tDouble code key integ fract =
     (case struct_pack [B, B, I, Q, Q] [MAGIC, code, len key, integ, fract] of
        Inl e \<Rightarrow> Inl e
      | Inr h \<Rightarrow> Inr [h, key])"

subsection \<open>The connection\<close>

text \<open>
  The socket, seen from the client: \<open>inbuf\<close> holds the bytes the server sends that the client
  has not received yet, \<open>sent\<close> the argument of every \<^verbatim>\<open>sendall\<close> so far, oldest first.
\<close>

record sock =
  inbuf :: string
  sent :: "string list"

text \<open>
  A call on the connection takes its state and returns an outcome and the new state.
  \<open>then_io m f\<close> runs \<open>m\<close>, then \<open>f\<close> on its result, in the state \<open>m\<close> left; when \<open>m\<close>
  raises or never returns, so does the whole and \<open>f\<close> is not run.
\<close>

type_synonym 'a io = "sock \<Rightarrow> 'a res \<times> sock"

definition then_io :: "'a io \<Rightarrow> ('a \<Rightarrow> 'b io) \<Rightarrow> 'b io" where
  "then_io m f s =
     (case m s of
        (Ret x, s') \<Rightarrow> f x s'
      | (Raise e, s') \<Rightarrow> (Raise e, s')
      | (Diverge, s') \<Rightarrow> (Diverge, s'))"

definition return_io :: "'a \<Rightarrow> 'a io" where
  "return_io x s = (Ret x, s)"

text \<open>
  \<^verbatim>\<open>socksend(sock, lst)\<close>. The frame is built before the call, so a frame that cannot be built
  raises with nothing sent.
\<close>

definition socksend :: "exn + string list \<Rightarrow> unit io" where
  "socksend lst s =
     (case lst of
        Inl e \<Rightarrow> (Raise e, s)
      | Inr l \<Rightarrow> (Ret (), s\<lparr>sent := sent s @ [concat l]\<rparr>))"

text \<open>
  \<^verbatim>\<open>sock.recv(n)\<close> hands over what is there, at most \<open>n\<close> bytes. With nothing left to receive
  it blocks, or returns the empty string for ever once the peer has closed: either way the
  loop of \<^verbatim>\<open>sockrecv\<close> never ends, which is the outcome \<open>Diverge\<close>.
\<close>

function sockrecv_loop :: "nat \<Rightarrow> string \<Rightarrow> string io" where
  "sockrecv_loop bytes d s =
     (if length d < bytes then
        (let c = take (min 8192 (bytes - length d)) (inbuf s) in
         if c = [] then (Diverge, s)
         else sockrecv_loop bytes (d @ c) (s\<lparr>inbuf := drop (length c) (inbuf s)\<rparr>))
      else (Ret d, s))"
  by pat_completeness auto
termination
proof (relation "measure (\<lambda>(bytes, d, s). bytes - length d)")
  fix bytes :: nat and d :: string and s :: sock and c :: string
  assume less: "length d < bytes"
    and c: "c = take (min 8192 (bytes - length d)) (inbuf s)"
    and ne: "c \<noteq> []"
  from c ne have "0 < length c" by simp
  with less have "bytes - (length d + length c) < bytes - length d" by arith
  then show "((bytes, d @ c, s\<lparr>inbuf := drop (length c) (inbuf s)\<rparr>), (bytes, d, s))
      \<in> measure (\<lambda>(bytes, d, s). bytes - length d)"
    by simp
qed simp

declare sockrecv_loop.simps [simp del]

definition sockrecv :: "nat \<Rightarrow> string io" where
  "sockrecv bytes = sockrecv_loop bytes []"

definition socksuccess :: "unit io" where
  "socksuccess =
     then_io (sockrecv 1) (\<lambda>d.
       let fail_code = (of_char (hd d) :: nat) in
       if fail_code \<noteq> 0 then (\<lambda>s. (Raise (TyrantError fail_code), s)) else return_io ())"

definition socklen :: "nat io" where
  "socklen = then_io (sockrecv 4) (\<lambda>d. return_io (unbe d))"

definition socklong :: "nat io" where
  "socklong = then_io (sockrecv 8) (\<lambda>d. return_io (unbe d))"

definition sockstr :: "string io" where
  "sockstr = then_io socklen (\<lambda>n. sockrecv n)"

definition sockdouble :: "real io" where
  "sockdouble =
     then_io (sockrecv 16) (\<lambda>d.
       let intpart = unbe (take 8 d); fracpart = unbe (drop 8 d)
       in return_io (real intpart + real fracpart * (1 / 10 ^ 12)))"

definition sockstrpair :: "(string \<times> string) io" where
  "sockstrpair =
     then_io socklen (\<lambda>klen.
     then_io socklen (\<lambda>vlen.
     then_io (sockrecv klen) (\<lambda>k.
     then_io (sockrecv vlen) (\<lambda>v.
     return_io (k, v)))))"

definition seq_io :: "unit io \<Rightarrow> 'a io \<Rightarrow> 'a io" where
  "seq_io m n = then_io m (\<lambda>_. n)"

text \<open>\<^verbatim>\<open>for i in xrange(n): yield m(sock)\<close>, collected into a list.\<close>

primrec repeat_io :: "nat \<Rightarrow> 'a io \<Rightarrow> 'a list io" where
  "repeat_io 0 m = return_io []"
| "repeat_io (Suc n) m =
     then_io m (\<lambda>x. then_io (repeat_io n m) (\<lambda>xs. return_io (x # xs)))"

text \<open>
  \<^verbatim>\<open>try: body finally: fin\<close>, where \<open>fin\<close> binds a variable used afterwards. The \<open>finally\<close>
  block runs when the body returns and when it raises; a body that raised is re-raised after
  the block, unless the block itself raises or never returns.
\<close>

definition try_finally :: "unit io \<Rightarrow> 'b io \<Rightarrow> 'b io" where
  "try_finally body fin s =
     (case body s of
        (Ret _, s') \<Rightarrow> fin s'
      | (Raise e, s') \<Rightarrow>
          (case fin s' of
             (Ret _, s'') \<Rightarrow> (Raise e, s'')
           | (Raise e', s'') \<Rightarrow> (Raise e', s'')
           | (Diverge, s'') \<Rightarrow> (Diverge, s''))
      | (Diverge, s') \<Rightarrow> (Diverge, s'))"

subsection \<open>Class Tyrant: one method per opcode\<close>

definition put :: "string \<Rightarrow> string \<Rightarrow> unit io" where
  "put key val = seq_io (socksend (t2 C_put key val)) socksuccess"

definition putkeep :: "string \<Rightarrow> string \<Rightarrow> unit io" where
  "putkeep key val = seq_io (socksend (t2 C_putkeep key val)) socksuccess"

definition putcat :: "string \<Rightarrow> string \<Rightarrow> unit io" where
  "putcat key val = seq_io (socksend (t2 C_putcat key val)) socksuccess"

definition putshl :: "string \<Rightarrow> string \<Rightarrow> int \<Rightarrow> unit io" where
  "putshl key val width = seq_io (socksend (t2W C_putshl key val width)) socksuccess"

definition putnr :: "string \<Rightarrow> string \<Rightarrow> unit io" where
  "putnr key val = socksend (t2 C_putnr key val)"

definition out :: "string \<Rightarrow> unit io" where
  "out key = seq_io (socksend (t1 C_out key)) socksuccess"

definition get :: "string \<Rightarrow> string io" where
  "get key = seq_io (socksend (t1 C_get key)) (seq_io socksuccess sockstr)"

definition mget :: "string list \<Rightarrow> (string \<times> string) list io" where
  "mget klst =
     seq_io (socksend (tN C_mget klst)) (seq_io socksuccess
       (then_io socklen (\<lambda>numrecs. repeat_io numrecs sockstrpair)))"

definition vsiz :: "string \<Rightarrow> nat io" where
  "vsiz key = seq_io (socksend (t1 C_vsiz key)) (seq_io socksuccess socklen)"

definition iterinit :: "unit io" where
  "iterinit = seq_io (socksend (t0 C_iterinit)) socksuccess"

definition iternext :: "string io" where
  "iternext = seq_io (socksend (t0 C_iternext)) (seq_io socksuccess sockstr)"

definition fwmkeys :: "string \<Rightarrow> int \<Rightarrow> string list io" where
  "fwmkeys prefix maxkeys =
     seq_io (socksend (t1M C_fwmkeys prefix maxkeys)) (seq_io socksuccess
       (then_io socklen (\<lambda>numkeys. repeat_io numkeys sockstr)))"

definition addint :: "string \<Rightarrow> int \<Rightarrow> nat io" where
  "addint key num = seq_io (socksend (t1M C_addint key num)) (seq_io socksuccess socklen)"

text \<open>
  \<^verbatim>\<open>int(x)\<close> on a float truncates towards zero; \<^verbatim>\<open>math.modf(x)\<close> returns the fractional
  part first, then the integral part.
\<close>

definition py_int :: "real \<Rightarrow> int" where
  "py_int x = (if x < 0 then \<lceil>x\<rceil> else \<lfloor>x\<rfloor>)"

definition modf :: "real \<Rightarrow> real \<times> real" where
  "modf x = (x - of_int (py_int x), of_int (py_int x))"

definition adddouble :: "string \<Rightarrow> real \<Rightarrow> real io" where
  "adddouble key num =
     (let (fracpart, intpart) = modf num;
          (fracpart, intpart) = (py_int (fracpart * 10 ^ 12), py_int intpart)
      in seq_io (socksend (tDouble C_adddouble key fracpart intpart))
           (seq_io socksuccess sockdouble))"

definition ext :: "string \<Rightarrow> int \<Rightarrow> string \<Rightarrow> string \<Rightarrow> string io" where
  "ext func opts key val =
     seq_io (socksend (t3F C_ext func opts key val)) (seq_io socksuccess sockstr)"

definition sync :: "unit io" where
  "sync = seq_io (socksend (t0 C_sync)) socksuccess"

definition vanish :: "unit io" where
  "vanish = seq_io (socksend (t0 C_vanish)) socksuccess"

definition copy :: "string \<Rightarrow> unit io" where
  "copy path = seq_io (socksend (t1 C_copy path)) socksuccess"

definition restore :: "string \<Rightarrow> int \<Rightarrow> unit io" where
  "restore path msec = seq_io (socksend (t1R C_copy path msec)) socksuccess"

definition setmst :: "string \<Rightarrow> int \<Rightarrow> unit io" where
  "setmst host port = seq_io (socksend (t1M C_setmst host port)) socksuccess"

definition rnum :: "nat io" where
  "rnum = seq_io (socksend (t0 C_rnum)) (seq_io socksuccess socklong)"

text \<open>\<^verbatim>\<open>Tyrant.size\<close>, under a name that is free in HOL.\<close>

definition size_db :: "nat io" where
  "size_db = seq_io (socksend (t0 C_size)) (seq_io socksuccess socklong)"

definition stat :: "string io" where
  "stat = seq_io (socksend (t0 C_stat)) (seq_io socksuccess sockstr)"

text \<open>
  \<^verbatim>\<open>misc\<close> is \<^verbatim>\<open>list(self._misc(func, opts, args))\<close>: the generator run to its end. The count
  is read in the \<^verbatim>\<open>finally\<close> block, whatever the status byte was.
\<close>

definition misc :: "string \<Rightarrow> int \<Rightarrow> string list \<Rightarrow> string list io" where
  "misc func opts args =
     seq_io (socksend (t1FN C_misc func opts args))
       (then_io (try_finally socksuccess socklen) (\<lambda>numrecs. repeat_io numrecs sockstr))"

subsection \<open>Class PyTyrant: bulk get and key iteration\<close>

text \<open>
  \<^verbatim>\<open>list_to_dict\<close>: the pairs \<^verbatim>\<open>(lst[i], lst[i + 1])\<close> for even \<open>i\<close>; with an odd number of
  entries the last \<^verbatim>\<open>lst[i + 1]\<close> raises \<^verbatim>\<open>IndexError\<close>. In the dict a later pair replaces an
  earlier one with the same key.
\<close>

fun pairs_of :: "'a list \<Rightarrow> exn + ('a \<times> 'a) list" where
  "pairs_of [] = Inr []"
| "pairs_of [k] = Inl IndexError"
| "pairs_of (k # v # rest) =
     (case pairs_of rest of Inl e \<Rightarrow> Inl e | Inr ps \<Rightarrow> Inr ((k, v) # ps))"

definition list_to_dict :: "string list \<Rightarrow> exn + (string \<rightharpoonup> string)" where
  "list_to_dict lst =
     (case pairs_of lst of Inl e \<Rightarrow> Inl e | Inr ps \<Rightarrow> Inr (map_of (rev ps)))"

text \<open>
  \<^verbatim>\<open>PyTyrant.multi_get\<close>. A value is \<open>None\<close> where \<^verbatim>\<open>d.get\<close> finds no entry for the key.
\<close>

definition multi_get :: "string list \<Rightarrow> bool \<Rightarrow> string option list io" where
  "multi_get keys no_update_log =
     (let opts = (if no_update_log then RDBMONOULOG else 0) in
      then_io (misc ''getlist'' opts keys) (\<lambda>rval.
        if length rval \<le> length keys then
          (if length rval < length keys then (\<lambda>s. (Raise KeyError, s))
           else return_io (map Some rval))
        else
          (case list_to_dict rval of
             Inl e \<Rightarrow> (\<lambda>s. (Raise e, s))
           | Inr d \<Rightarrow> return_io (map d keys))))"

subsection \<open>Python strings, indexing and slices\<close>

text \<open>\<^verbatim>\<open>str(i)\<close> for an integer: decimal digits, with a minus sign when negative.\<close>

fun digits :: "nat \<Rightarrow> string" where
  "digits n =
     (if n < 10 then [char_of (48 + n)]
      else digits (n div 10) @ [char_of (48 + n mod 10)])"

declare digits.simps [simp del]

definition str_int :: "int \<Rightarrow> string" where
  "str_int i = (if i < 0 then CHR ''-'' # digits (nat (- i)) else digits (nat i))"

text \<open>\<^verbatim>\<open>sep.join(parts)\<close>.\<close>

fun join :: "string \<Rightarrow> string list \<Rightarrow> string" where
  "join sep [] = []"
| "join sep [x] = x"
| "join sep (x # y # ys) = x @ sep @ join sep (y # ys)"

text \<open>
  \<^verbatim>\<open>key.split('__')\<close>: the key is cut at every occurrence of two underscores, scanning
  from the left; \<open>acc\<close> is the part read so far.
\<close>

fun split_dunder :: "string \<Rightarrow> string \<Rightarrow> string list" where
  "split_dunder acc [] = [acc]"
| "split_dunder acc (c # cs) =
     (case cs of
        d # ds \<Rightarrow>
          if c = CHR ''_'' \<and> d = CHR ''_'' then acc # split_dunder [] ds
          else split_dunder (acc @ [c]) cs
      | [] \<Rightarrow> split_dunder (acc @ [c]) cs)"

text \<open>\<^verbatim>\<open>lst[i]\<close> for an integer: a negative index counts from the end.\<close>

definition list_index :: "'a list \<Rightarrow> int \<Rightarrow> exn + 'a" where
  "list_index xs i =
     (let n = len xs; j = (if i < 0 then i + n else i)
      in if 0 \<le> j \<and> j < n then Inr (xs ! nat j) else Inl IndexError)"

text \<open>
  \<^verbatim>\<open>lst[start:stop:step]\<close>, as CPython computes it: a bound is shifted by the length when
  negative and clipped to the list, the number of elements follows from the bounds and the
  step, and a step of zero raises \<^verbatim>\<open>ValueError\<close>.
\<close>

definition clip_index :: "int \<Rightarrow> int \<Rightarrow> int \<Rightarrow> int" where
  "clip_index n step i =
     (let i = (if i < 0 then i + n else i);
          i = (if i < 0 then (if step < 0 then - 1 else 0) else i)
      in if i \<ge> n then (if step < 0 then n - 1 else n) else i)"

definition getslice :: "'a list \<Rightarrow> int option \<Rightarrow> int option \<Rightarrow> int option \<Rightarrow> exn + 'a list" where
  "getslice xs start stop step =
     (let st = (case step of None \<Rightarrow> 1 | Some v \<Rightarrow> v) in
      if st = 0 then Inl ValueError
      else
        let n = len xs;
            a = (case start of None \<Rightarrow> (if st < 0 then n - 1 else 0) | Some i \<Rightarrow> clip_index n st i);
            b = (case stop of None \<Rightarrow> (if st < 0 then - 1 else n) | Some i \<Rightarrow> clip_index n st i);
            slicelength =
              (if (st < 0 \<and> b \<ge> a) \<or> (st > 0 \<and> a \<ge> b) then 0
               else if st < 0 then (b - a + 1) div st + 1
               else (b - a - 1) div st + 1)
        in Inr (map (\<lambda>i. xs ! nat (a + int i * st)) [0..<nat slicelength]))"

subsection \<open>Class Query\<close>

text \<open>
  Condition lists are mutable Python lists, appended to in place, so they live in a heap of
  list objects: a reference is an index into the heap. A Query holds a reference to its
  condition list and its result cache (\<open>None\<close> until populated); \<open>ptt\<close> names the mapping
  wrapper whose connection the searches go through.
\<close>

type_synonym ref = nat
type_synonym heap = "string list list"

definition new_list :: "string list \<Rightarrow> heap \<Rightarrow> ref \<times> heap" where
  "new_list xs h = (length h, h @ [xs])"

definition list_append :: "ref \<Rightarrow> string \<Rightarrow> heap \<Rightarrow> heap" where
  "list_append r x h = h[r := h ! r @ [x]]"

record query =
  ptt :: nat
  conditions :: ref
  result_cache :: "string list option"

text \<open>
  What \<^verbatim>\<open>Query.__getitem__\<close> is given: an integer (\<^verbatim>\<open>int\<close> or \<^verbatim>\<open>long\<close>), a slice whose
  start, stop and step are integers or \<^verbatim>\<open>None\<close>, or a value of any other type; and what it
  returns: \<^verbatim>\<open>None\<close>, one key, or a list of keys.
\<close>

datatype index = Index int | Slice "int option" "int option" "int option" | Other

datatype pyval = PyNone | Str string | Lst "string list"

text \<open>The value of a keyword argument of \<^verbatim>\<open>filter\<close>: a string, an iterable of strings, or
  something that is neither.\<close>

datatype fval = StrVal string | IterVal "string list" | OtherVal

definition raise_io :: "exn \<Rightarrow> 'a io" where
  "raise_io e s = (Raise e, s)"

definition Query_init :: "nat \<Rightarrow> heap \<Rightarrow> query \<times> heap" where
  "Query_init p h =
     (let (r, h') = new_list [] h
      in (\<lparr>ptt = p, conditions = r, result_cache = None\<rparr>, h'))"

text \<open>\<^verbatim>\<open>Query._clone\<close>, as the derivation methods call it (no class, no keyword arguments).\<close>

definition clone :: "query \<Rightarrow> heap \<Rightarrow> query \<times> heap" where
  "clone self h =
     (let (q, h1) = Query_init (ptt self) h;
          (r, h2) = new_list (h1 ! conditions self) h1
      in (q\<lparr>conditions := r\<rparr>, h2))"

text \<open>The condition asserted by \<^verbatim>\<open>__getitem__\<close> (assertions are taken to be enabled).\<close>

fun index_ok :: "index \<Rightarrow> bool" where
  "index_ok (Index i) = (i \<ge> 0)"
| "index_ok (Slice start stop step) =
     ((case start of None \<Rightarrow> True | Some a \<Rightarrow> a \<ge> 0) \<and>
      (case stop of None \<Rightarrow> True | Some b \<Rightarrow> b \<ge> 0))"
| "index_ok Other = False"

text \<open>\<^verbatim>\<open>self._result_cache[k]\<close>.\<close>

fun cache_getitem :: "string list \<Rightarrow> index \<Rightarrow> exn + pyval" where
  "cache_getitem xs (Index i) =
     (case list_index xs i of Inl e \<Rightarrow> Inl e | Inr x \<Rightarrow> Inr (Str x))"
| "cache_getitem xs (Slice start stop step) =
     (case getslice xs start stop step of Inl e \<Rightarrow> Inl e | Inr ys \<Rightarrow> Inr (Lst ys))"
| "cache_getitem xs Other = Inl TypeError"

text \<open>\<^verbatim>\<open>k.start or 0\<close>.\<close>

definition or_zero :: "int option \<Rightarrow> int" where
  "or_zero a = (case a of None \<Rightarrow> 0 | Some v \<Rightarrow> if v = 0 then 0 else v)"

definition setlimit :: "int \<Rightarrow> int \<Rightarrow> string" where
  "setlimit limit offset = join [CHR 0x00] [''setlimit'', str_int limit, str_int offset]"

definition getitem :: "heap \<Rightarrow> query \<Rightarrow> index \<Rightarrow> pyval io" where
  "getitem h self k =
     (if k = Other then raise_io TypeError
      else if \<not> index_ok k then raise_io AssertionError
      else if (case result_cache self of None \<Rightarrow> False | Some xs \<Rightarrow> xs \<noteq> []) then
        (case cache_getitem (the (result_cache self)) k of
           Inr v \<Rightarrow> return_io v
         | Inl e \<Rightarrow>
             if e = IndexError then
               (case k of Slice _ _ _ \<Rightarrow> raise_io e | _ \<Rightarrow> return_io PyNone)
             else raise_io e)
      else
        (case k of
           Slice start stop step \<Rightarrow>
             (let limit = (case stop of Some b \<Rightarrow> b - or_zero start | None \<Rightarrow> - 1);
                  condition = setlimit limit (or_zero start)
              in then_io (misc ''search'' 0 (h ! conditions self @ [condition])) (\<lambda>resp.
                   case step of
                     None \<Rightarrow> return_io (Lst resp)
                   | Some st \<Rightarrow>
                       if st = 0 then return_io (Lst resp)
                       else (case getslice resp None None (Some st) of
                               Inl e \<Rightarrow> raise_io e
                             | Inr ys \<Rightarrow> return_io (Lst (if ys \<noteq> [] then ys else resp)))))
         | Index i \<Rightarrow>
             (let condition = setlimit 1 i
              in then_io (misc ''search'' 0 (h ! conditions self @ [condition])) (\<lambda>resp.
                   if resp = [] then return_io PyNone else return_io (Str (hd resp))))
         | Other \<Rightarrow> raise_io TypeError))"

text \<open>
  \<^verbatim>\<open>Query.filter\<close> (\<open>filter_q\<close>, as \<open>filter\<close> is taken in HOL). The keyword arguments
  come as the list of pairs that \<^verbatim>\<open>query.iteritems()\<close> produces. The loop appends to the
  condition list of the clone.
\<close>

fun filter_loop :: "ref \<Rightarrow> (string \<times> fval) list \<Rightarrow> heap \<Rightarrow> (exn + unit) \<times> heap" where
  "filter_loop r [] h = (Inr (), h)"
| "filter_loop r ((key, val) # rest) h =
     (let parts = split_dunder [] key in
      if length parts \<noteq> 2 then (Inl ValueError, h)
      else
        let field = parts ! 0; operation = parts ! 1 in
        case map_of QUERY_OPERATIONS operation of
          None \<Rightarrow> (Inl ValueError, h)
        | Some opcode \<Rightarrow>
            (case val of
               OtherVal \<Rightarrow> (Inl TypeError, h)
             | StrVal v \<Rightarrow>
                 filter_loop r rest
                   (list_append r (join [CHR 0x00] [''addcond'', field, opcode, v]) h)
             | IterVal vs \<Rightarrow>
                 filter_loop r rest
                   (list_append r (join [CHR 0x00] [''addcond'', field, opcode, join '','' vs]) h)))"

definition filter_q :: "query \<Rightarrow> (string \<times> fval) list \<Rightarrow> heap \<Rightarrow> (exn + query) \<times> heap" where
  "filter_q self query h =
     (let (q, h1) = clone self h in
      case filter_loop (conditions q) query h1 of
        (Inl e, h2) \<Rightarrow> (Inl e, h2)
      | (Inr _, h2) \<Rightarrow> (Inr q, h2))"

text \<open>
  The condition that the loop body of \<^verbatim>\<open>Query.filter\<close> builds for one keyword argument, or
  the exception it raises.
\<close>

definition filter_condition :: "string \<times> fval \<Rightarrow> exn + string" where
  "filter_condition kv =
     (case kv of (key, val) \<Rightarrow>
        let parts = split_dunder [] key in
        if length parts \<noteq> 2 then Inl ValueError
        else
          let field = parts ! 0; operation = parts ! 1 in
          case map_of QUERY_OPERATIONS operation of
            None \<Rightarrow> Inl ValueError
          | Some opcode \<Rightarrow>
              (case val of
                 OtherVal \<Rightarrow> Inl TypeError
               | StrVal v \<Rightarrow> Inr (join [CHR 0x00] [''addcond'', field, opcode, v])
               | IterVal vs \<Rightarrow>
                   Inr (join [CHR 0x00] [''addcond'', field, opcode, join '','' vs])))"

definition order_by_num :: "query \<Rightarrow> string \<Rightarrow> heap \<Rightarrow> query \<times> heap" where
  "order_by_num self field h =
     (let (q, h1) = clone self h;
          (direction, field) =
            (if take 1 field = ''-'' then (RDBQONUMDESC, drop 1 field) else (RDBQONUMASC, field));
          condition = join [CHR 0x00] [''setorder'', field, str_int direction]
      in (q, list_append (conditions q) condition h1))"

definition order_by_str :: "query \<Rightarrow> string \<Rightarrow> heap \<Rightarrow> query \<times> heap" where
  "order_by_str self field h =
     (let (q, h1) = clone self h;
          (direction, field) =
            (if take 1 field = ''-'' then (RDBQOSTRDESC, drop 1 field) else (RDBQOSTRASC, field));
          condition = join [CHR 0x00] [''setorder'', field, str_int direction]
      in (q, list_append (conditions q) condition h1))"

text \<open>\<^verbatim>\<open>Query._get_results\<close>: the query comes back with its cache populated.\<close>

definition get_results :: "heap \<Rightarrow> query \<Rightarrow> sock \<Rightarrow> (string list res \<times> query) \<times> sock" where
  "get_results h self s =
     (case result_cache self of
        None \<Rightarrow>
          (case misc ''search'' 0 (h ! conditions self) s of
             (Ret r, s') \<Rightarrow> ((Ret r, self\<lparr>result_cache := Some r\<rparr>), s')
           | (Raise e, s') \<Rightarrow> ((Raise e, self), s')
           | (Diverge, s') \<Rightarrow> ((Diverge, self), s'))
      | Some xs \<Rightarrow> ((Ret xs, self), s))"

subsection \<open>Predicates used in the statements\<close>

text \<open>
  \<open>fails_on_status s frame r\<close>: the call with request \<open>frame\<close>, started in \<open>s\<close>, ended as
  \<open>r\<close>, and either the request could not be built (its exception is raised with nothing sent
  and nothing read), or the request was sent, exactly one byte was read, the status, and
  \<open>TyrantError\<close> was raised with that byte as its code.
\<close>

definition fails_on_status :: "sock \<Rightarrow> exn + string list \<Rightarrow> 'a res \<times> sock \<Rightarrow> bool" where
  "fails_on_status s frame r =
     (case frame of
        Inl e \<Rightarrow> r = (Raise e, s)
      | Inr l \<Rightarrow>
          (case inbuf s of
             [] \<Rightarrow> False
           | c # rest \<Rightarrow>
               r = (Raise (TyrantError (of_char c)), s\<lparr>sent := sent s @ [concat l], inbuf := rest\<rparr>)))"

text \<open>
  The bytes from which \<open>sockstr\<close> reads the string \<open>k\<close>: its length in four bytes, then
  the string.
\<close>

abbreviation wire_str :: "string \<Rightarrow> string" where
  "wire_str k \<equiv> be 4 (length k) @ k"

text \<open>
  Python's \<^verbatim>\<open>xs[::st]\<close> for a nonzero step, in words: \<open>every n xs\<close> keeps the elements at
  the positions \<open>0\<close>, \<open>n\<close>, \<open>2n\<close>, ... of \<open>xs\<close>; a positive step walks from the front, a
  negative one from the back.
\<close>

definition every :: "nat \<Rightarrow> 'a list \<Rightarrow> 'a list" where
  "every n xs = map (\<lambda>i. xs ! (i * n)) [0..<(length xs + n - 1) div n]"

definition py_step :: "int \<Rightarrow> 'a list \<Rightarrow> 'a list" where
  "py_step st xs = (if st > 0 then every (nat st) xs else every (nat (- st)) (rev xs))"

text \<open>
  \<open>derived q h q' h' cs\<close>: in the heap \<open>h'\<close> the query \<open>q'\<close> has a condition list of its
  own, one that did not exist in \<open>h\<close>, holding the conditions of \<open>q\<close> followed by \<open>cs\<close>; every
  list of \<open>h\<close>, the condition list of \<open>q\<close> among them, is in \<open>h'\<close> what it was in \<open>h\<close>;
  the cache of \<open>q'\<close> is unpopulated.
\<close>

definition derived :: "query \<Rightarrow> heap \<Rightarrow> query \<Rightarrow> heap \<Rightarrow> string list \<Rightarrow> bool" where
  "derived q h q' h' cs =
     (length h \<le> conditions q' \<and> conditions q' < length h'
      \<and> conditions q' \<noteq> conditions q
      \<and> h' ! conditions q' = h ! conditions q @ cs
      \<and> take (length h) h' = h
      \<and> h' ! conditions q = h ! conditions q
      \<and> result_cache q' = None
      \<and> ptt q' = ptt q)"

subsection \<open>What a receive returns\<close>

lemma sockrecv_loop_eq:
  "sockrecv_loop n d s =
     (if n - length d \<le> length (inbuf s)
      then (Ret (d @ take (n - length d) (inbuf s)), s\<lparr>inbuf := drop (n - length d) (inbuf s)\<rparr>)
      else (Diverge, s\<lparr>inbuf := []\<rparr>))"
proof (induction n d s rule: sockrecv_loop.induct)
  case (1 bytes d s)
  show ?case
  proof (cases "length d < bytes")
    case False
    then show ?thesis by (simp add: sockrecv_loop.simps [of bytes d s])
  next
    case True
    define c where "c = take (min 8192 (bytes - length d)) (inbuf s)"
    show ?thesis
    proof (cases "c = []")
      case True
      with \<open>length d < bytes\<close> have "inbuf s = []" by (auto simp: c_def)
      with True \<open>length d < bytes\<close> show ?thesis
        by (simp add: sockrecv_loop.simps [of bytes d s])
    next
      case False
      have lc: "length c \<le> bytes - length d" by (simp add: c_def)
      have lc2: "length c \<le> length (inbuf s)" by (simp add: c_def)
      have cpre: "c = take (length c) (inbuf s)" by (simp add: c_def min_def)
      have IH: "sockrecv_loop bytes (d @ c) (s\<lparr>inbuf := drop (length c) (inbuf s)\<rparr>) =
         (if bytes - length (d @ c) \<le> length (inbuf (s\<lparr>inbuf := drop (length c) (inbuf s)\<rparr>))
          then (Ret ((d @ c) @ take (bytes - length (d @ c)) (inbuf (s\<lparr>inbuf := drop (length c) (inbuf s)\<rparr>))),
                s\<lparr>inbuf := drop (length c) (inbuf s)\<rparr>\<lparr>inbuf := drop (bytes - length (d @ c)) (inbuf (s\<lparr>inbuf := drop (length c) (inbuf s)\<rparr>))\<rparr>)
          else (Diverge, s\<lparr>inbuf := drop (length c) (inbuf s)\<rparr>\<lparr>inbuf := []\<rparr>))"
        using "1.IH" [OF True c_def False] .
      have unfold: "sockrecv_loop bytes d s = sockrecv_loop bytes (d @ c) (s\<lparr>inbuf := drop (length c) (inbuf s)\<rparr>)"
      proof -
        have "sockrecv_loop bytes d s =
            (if c = [] then (Diverge, s)
             else sockrecv_loop bytes (d @ c) (s\<lparr>inbuf := drop (length c) (inbuf s)\<rparr>))"
          using True by (subst sockrecv_loop.simps) (simp only: Let_def c_def if_True)
        with False show ?thesis by simp
      qed
      have tk: "c @ take (bytes - length d - length c) (drop (length c) (inbuf s)) = take (bytes - length d) (inbuf s)"
      proof -
        have "take (length c + (bytes - length d - length c)) (inbuf s) =
              take (length c) (inbuf s) @ take (bytes - length d - length c) (drop (length c) (inbuf s))"
          by (rule take_add)
        moreover from lc have "length c + (bytes - length d - length c) = bytes - length d"
          by arith
        ultimately show ?thesis using cpre by metis
      qed
      have dr: "drop (bytes - length d - length c) (drop (length c) (inbuf s)) = drop (bytes - length d) (inbuf s)"
      proof -
        from lc have "bytes - length d - length c + length c = bytes - length d" by arith
        then show ?thesis by (simp only: drop_drop)
      qed
      have cond: "(bytes - length (d @ c) \<le> length (drop (length c) (inbuf s))) = (bytes - length d \<le> length (inbuf s))"
        using lc lc2 by auto
      show ?thesis
        unfolding unfold IH using tk dr cond by (simp add: diff_diff_eq)
    qed
  qed
qed

lemma sockrecv_eq:
  "sockrecv n s =
     (if n \<le> length (inbuf s)
      then (Ret (take n (inbuf s)), s\<lparr>inbuf := drop n (inbuf s)\<rparr>)
      else (Diverge, s\<lparr>inbuf := []\<rparr>))"
  by (simp add: sockrecv_def sockrecv_loop_eq)

lemma then_io_Ret:
  "then_io m f s = (Ret y, s') \<Longrightarrow> \<exists>x s1. m s = (Ret x, s1) \<and> f x s1 = (Ret y, s')"
  by (auto simp: then_io_def split: prod.splits res.splits)

lemma sockrecv_inbuf_le: "sockrecv n s = (r, s') \<Longrightarrow> length (inbuf s') \<le> length (inbuf s)"
  by (auto simp: sockrecv_eq split: if_splits)

lemma socksuccess_Ret_less:
  assumes "socksuccess s = (Ret x, s')"
  shows "length (inbuf s') < length (inbuf s)"
proof -
  from assms obtain d s1 where r: "sockrecv 1 s = (Ret d, s1)"
    and k: "(let fail_code = (of_char (hd d) :: nat) in
       if fail_code \<noteq> 0 then (\<lambda>s. (Raise (TyrantError fail_code), s)) else return_io ()) s1 = (Ret x, s')"
    unfolding socksuccess_def by (blast dest: then_io_Ret)
  from k have "s' = s1" by (auto simp: Let_def return_io_def split: if_splits)
  moreover from r have "length (inbuf s1) < length (inbuf s)"
    by (auto simp: sockrecv_eq split: if_splits)
  ultimately show ?thesis by simp
qed

lemma sockstr_inbuf_le:
  assumes "sockstr s = (Ret x, s')"
  shows "length (inbuf s') \<le> length (inbuf s)"
proof -
  from assms obtain n s1 where a: "socklen s = (Ret n, s1)" and b: "sockrecv n s1 = (Ret x, s')"
    unfolding sockstr_def by (blast dest: then_io_Ret)
  from a obtain d s2 where c: "sockrecv 4 s = (Ret d, s2)" and e: "return_io (unbe d) s2 = (Ret n, s1)"
    unfolding socklen_def by (blast dest: then_io_Ret)
  from e have "s1 = s2" by (simp add: return_io_def)
  with sockrecv_inbuf_le [OF c] sockrecv_inbuf_le [OF b] show ?thesis by simp
qed

lemma iternext_Ret_less:
  assumes "iternext s = (Ret k, s')"
  shows "length (inbuf s') < length (inbuf s)"
proof -
  from assms obtain u s1 where a: "socksend (t0 C_iternext) s = (Ret u, s1)"
    and b: "seq_io socksuccess sockstr s1 = (Ret k, s')"
    unfolding iternext_def seq_io_def by (blast dest: then_io_Ret)
  from b obtain v s2 where c: "socksuccess s1 = (Ret v, s2)" and d: "sockstr s2 = (Ret k, s')"
    unfolding seq_io_def by (blast dest: then_io_Ret)
  from a have "inbuf s1 = inbuf s" by (auto simp: socksend_def split: sum.splits)
  with socksuccess_Ret_less [OF c] sockstr_inbuf_le [OF d] show ?thesis by simp
qed

subsection \<open>Key iteration\<close>

text \<open>
  \<^verbatim>\<open>PyTyrant.iterkeys\<close>, a generator: the keys it yields, in order, and how it ends.
  \<open>Ret ()\<close> is the normal end of the generator. The \<^verbatim>\<open>while True\<close> loop is left only by an
  exception; every successful \<^verbatim>\<open>iternext\<close> takes bytes from the connection, which is the
  termination argument.
\<close>

function iterkeys_loop :: "sock \<Rightarrow> (string list \<times> unit res) \<times> sock" where
  "iterkeys_loop s =
     (case iternext s of
        (Ret k, s') \<Rightarrow> (case iterkeys_loop s' of ((ks, r), s'') \<Rightarrow> ((k # ks, r), s''))
      | (Raise (TyrantError c), s') \<Rightarrow> (([], Ret ()), s')
      | (Raise e, s') \<Rightarrow> (([], Raise e), s')
      | (Diverge, s') \<Rightarrow> (([], Diverge), s'))"
  by pat_completeness auto
termination
proof (relation "measure (\<lambda>s. length (inbuf s))")
  fix s :: sock and x :: "string res" and y :: sock and x1 :: string
  assume "(x, y) = iternext s" and "x = Ret x1"
  then have "iternext s = (Ret x1, y)" by simp
  then show "(y, s) \<in> measure (\<lambda>s. length (inbuf s))"
    by (simp add: iternext_Ret_less)
qed simp

declare iterkeys_loop.simps [simp del]

definition iterkeys :: "sock \<Rightarrow> (string list \<times> unit res) \<times> sock" where
  "iterkeys s =
     (case iterinit s of
        (Ret _, s') \<Rightarrow> iterkeys_loop s'
      | (Raise e, s') \<Rightarrow> (([], Raise e), s')
      | (Diverge, s') \<Rightarrow> (([], Diverge), s'))"

section \<open>Properties\<close>

subsection \<open>Encoding and transport\<close>

lemma length_be: "length (be n v) = n"
  by (induction n arbitrary: v) simp_all

lemma unbe_snoc: "unbe (bs @ [c]) = unbe bs * 256 + of_char c"
  by (simp add: unbe_def)

lemma unbe_be_mod: "unbe (be n v) = v mod 256 ^ n"
proof (induction n arbitrary: v)
  case 0
  show ?case by (simp add: unbe_def)
next
  case (Suc n)
  have "unbe (be (Suc n) v) = (v div 256 mod 256 ^ n) * 256 + v mod 256"
    by (simp add: unbe_snoc Suc.IH)
  also have "\<dots> = v mod (256 * 256 ^ n)"
    by (simp add: mod_mult2_eq)
  finally show ?case by simp
qed

lemma unbe_be: "v < 256 ^ n \<Longrightarrow> unbe (be n v) = v"
  by (simp add: unbe_be_mod)

lemma socksend_Inr: "socksend (Inr l) s = (Ret (), s\<lparr>sent := sent s @ [concat l]\<rparr>)"
  by (simp add: socksend_def)

lemma socksend_Inl: "socksend (Inl e) s = (Raise e, s)"
  by (simp add: socksend_def)

lemma then_io_simps:
  "m s = (Ret x, s') \<Longrightarrow> then_io m f s = f x s'"
  "m s = (Raise e, s') \<Longrightarrow> then_io m f s = (Raise e, s')"
  "m s = (Diverge, s') \<Longrightarrow> then_io m f s = (Diverge, s')"
  by (simp_all add: then_io_def)

lemma seq_io_simps:
  "m s = (Ret x, s') \<Longrightarrow> seq_io m n s = n s'"
  "m s = (Raise e, s') \<Longrightarrow> seq_io m n s = (Raise e, s')"
  "m s = (Diverge, s') \<Longrightarrow> seq_io m n s = (Diverge, s')"
  by (simp_all add: seq_io_def then_io_def)

lemma sockrecv_take:
  "n \<le> length (inbuf s) \<Longrightarrow> sockrecv n s = (Ret (take n (inbuf s)), s\<lparr>inbuf := drop n (inbuf s)\<rparr>)"
  by (simp add: sockrecv_eq)

lemma sockrecv_short:
  "length (inbuf s) < n \<Longrightarrow> sockrecv n s = (Diverge, s\<lparr>inbuf := []\<rparr>)"
  by (simp add: sockrecv_eq)

lemma socksuccess_Nil: "inbuf s = [] \<Longrightarrow> socksuccess s = (Diverge, s)"
  by (simp add: socksuccess_def then_io_def sockrecv_eq)

lemma socksuccess_fail:
  "inbuf s = c # rest \<Longrightarrow> of_char c \<noteq> (0::nat) \<Longrightarrow>
   socksuccess s = (Raise (TyrantError (of_char c)), s\<lparr>inbuf := rest\<rparr>)"
  by (simp add: socksuccess_def then_io_def sockrecv_eq Let_def)

lemma socksuccess_ok:
  "inbuf s = c # rest \<Longrightarrow> of_char c = (0::nat) \<Longrightarrow>
   socksuccess s = (Ret (), s\<lparr>inbuf := rest\<rparr>)"
  by (simp add: socksuccess_def then_io_def sockrecv_eq Let_def return_io_def)

lemma socklen_eq:
  "socklen s =
     (if 4 \<le> length (inbuf s)
      then (Ret (unbe (take 4 (inbuf s))), s\<lparr>inbuf := drop 4 (inbuf s)\<rparr>)
      else (Diverge, s\<lparr>inbuf := []\<rparr>))"
  by (simp add: socklen_def then_io_def sockrecv_eq return_io_def)

lemma socklen_be:
  "inbuf s = be 4 n @ rest \<Longrightarrow> n < 2 ^ 32 \<Longrightarrow> socklen s = (Ret n, s\<lparr>inbuf := rest\<rparr>)"
  by (simp add: socklen_eq length_be unbe_be)

lemma sockstr_be:
  "inbuf s = be 4 (length k) @ k @ rest \<Longrightarrow> length k < 2 ^ 32 \<Longrightarrow>
   sockstr s = (Ret k, s\<lparr>inbuf := rest\<rparr>)"
  by (simp add: sockstr_def then_io_def socklen_be [of s "length k" "k @ rest"] sockrecv_eq)

lemma magic_byte: "char_of MAGIC = CHR 0xC8"
  by (simp add: MAGIC_def char_of_def)

lemma copy_byte: "char_of C_copy = CHR 0x72"
  by (simp add: C_copy_def char_of_def)

lemma char_of_nat_eq: "0 \<le> c \<Longrightarrow> char_of (nat c) = char_of (c::int)"
  by (metis char_of_nat int_nat_eq)

lemma char_of_nat_numeral: "char_of (numeral k :: nat) = char_of (numeral k :: int)"
  by (metis char_of_nat of_nat_numeral)

lemma be1: "v < 256 \<Longrightarrow> be 1 v = [char_of v]"
  by simp

lemma struct_pack_BBIQ:
  assumes "0 \<le> code" "code < 256" "length key < 2 ^ 32" "0 \<le> msec" "msec < 2 ^ 64"
  shows "struct_pack [B, B, I, Q] [MAGIC, code, len key, msec] =
    Inr ([char_of MAGIC, char_of code] @ be 4 (length key) @ be 8 (nat msec))"
  using assms by (simp add: MAGIC_def len_def char_of_nat_eq char_of_nat_numeral)

lemma socksuccess_sent: "socksuccess s = (r, s') \<Longrightarrow> sent s' = sent s"
  by (auto simp: socksuccess_def then_io_def sockrecv_eq Let_def return_io_def split: if_splits)

lemma seq_send_success_sent:
  "sent (snd (seq_io (socksend (Inr l)) socksuccess s)) = sent s @ [concat l]"
proof -
  obtain r s' where r: "socksuccess (s\<lparr>sent := sent s @ [concat l]\<rparr>) = (r, s')"
    by (cases "socksuccess (s\<lparr>sent := sent s @ [concat l]\<rparr>)")
  from socksuccess_sent [OF r] have "sent s' = sent s @ [concat l]" by simp
  with r show ?thesis by (simp add: seq_io_def then_io_def socksend_Inr)
qed

subsection \<open>The restore frame\<close>

text \<open>
  Claim C9. For every path and every millisecond timestamp that fit their fields, the frame
  that \<open>restore\<close> sends is the magic byte \<open>0xC8\<close>, the opcode byte \<open>0x72\<close>, the 4-byte
  big-endian length of the path, the 8-byte big-endian timestamp, then the path. The opcode
  byte is the one \<open>copy\<close> sends, not the byte of \<open>C_restore\<close>.
\<close>

theorem restore_frame:
  assumes "length path < 2 ^ 32" and "0 \<le> msec" and "msec < 2 ^ 64"
  shows "sent (snd (restore path msec s)) =
           sent s @ [[CHR 0xC8, CHR 0x72] @ be 4 (length path) @ be 8 (nat msec) @ path]
       \<and> sent (snd (copy path s)) = sent s @ [[CHR 0xC8, CHR 0x72] @ be 4 (length path) @ path]
       \<and> length (be 4 (length path)) = 4 \<and> unbe (be 4 (length path)) = length path
       \<and> length (be 8 (nat msec)) = 8 \<and> unbe (be 8 (nat msec)) = nat msec
       \<and> char_of C_restore \<noteq> CHR 0x72"
proof -
  have c: "0 \<le> C_copy" "C_copy < 256" by (simp_all add: C_copy_def)
  have fr: "t1R C_copy path msec =
      Inr [[CHR 0xC8, CHR 0x72] @ be 4 (length path) @ be 8 (nat msec), path]"
    using struct_pack_BBIQ [OF c assms] by (simp add: t1R_def magic_byte copy_byte)
  have "struct_pack [B, B, I] [MAGIC, C_copy, len path] =
      Inr ([CHR 0xC8, CHR 0x72] @ be 4 (length path))"
    using assms(1) c magic_byte copy_byte
    by (simp add: len_def char_of_nat_eq char_of_nat_numeral MAGIC_def)
  then have fc: "t1 C_copy path = Inr [[CHR 0xC8, CHR 0x72] @ be 4 (length path), path]"
    by (simp add: t1_def)
  have 1: "sent (snd (restore path msec s)) =
           sent s @ [[CHR 0xC8, CHR 0x72] @ be 4 (length path) @ be 8 (nat msec) @ path]"
    unfolding restore_def fr by (simp add: seq_send_success_sent)
  have 2: "sent (snd (copy path s)) = sent s @ [[CHR 0xC8, CHR 0x72] @ be 4 (length path) @ path]"
    unfolding copy_def fc by (simp add: seq_send_success_sent)
  have 3: "unbe (be 4 (length path)) = length path"
    using assms(1) by (simp add: unbe_be)
  have "nat msec < 2 ^ 64" using assms(2,3) by simp
  then have 4: "unbe (be 8 (nat msec)) = nat msec"
    by (simp add: unbe_be)
  have 5: "char_of C_restore \<noteq> CHR 0x72"
    by (simp add: C_restore_def char_of_def)
  from 1 2 3 4 5 show ?thesis by (simp add: length_be)
qed

theorem restore_frame_witness:
  "sent (snd (restore ''/tmp/db'' 1000 \<lparr>inbuf = [CHR 0x00], sent = []\<rparr>)) =
     [[CHR 0xC8, CHR 0x72, CHR 0x00, CHR 0x00, CHR 0x00, CHR 0x07,
       CHR 0x00, CHR 0x00, CHR 0x00, CHR 0x00, CHR 0x00, CHR 0x00, CHR 0x03, CHR 0xE8] @ ''/tmp/db'']"
proof -
  have a: "length ''/tmp/db'' < 2 ^ 32" by simp
  have b: "(0::int) \<le> 1000" "(1000::int) < 2 ^ 64" by simp_all
  have c: "be 4 (length ''/tmp/db'') = [CHR 0x00, CHR 0x00, CHR 0x00, CHR 0x07]" by code_simp
  have d: "be 8 (nat 1000) = [CHR 0x00, CHR 0x00, CHR 0x00, CHR 0x00, CHR 0x00, CHR 0x00, CHR 0x03, CHR 0xE8]"
    by code_simp
  from restore_frame [OF a b, of "\<lparr>inbuf = [CHR 0x00], sent = []\<rparr>"]
  show ?thesis unfolding c d by simp
qed

subsection \<open>A nonzero status byte\<close>

lemma request_fails:
  assumes "inbuf s = c # rest" and "of_char c \<noteq> (0::nat)"
  shows "fails_on_status s fr (seq_io (socksend fr) (seq_io socksuccess m) s)"
    and "fails_on_status s fr (seq_io (socksend fr) socksuccess s)"
proof -
  show "fails_on_status s fr (seq_io (socksend fr) (seq_io socksuccess m) s)"
  proof (cases fr)
    case (Inl e)
    then show ?thesis
      by (simp add: fails_on_status_def seq_io_simps(2) [OF socksend_Inl])
  next
    case (Inr l)
    let ?s1 = "s\<lparr>sent := sent s @ [concat l]\<rparr>"
    have "inbuf ?s1 = c # rest" using assms(1) by simp
    from socksuccess_fail [OF this assms(2)]
    have "seq_io socksuccess m ?s1 = (Raise (TyrantError (of_char c)), ?s1\<lparr>inbuf := rest\<rparr>)"
      by (rule seq_io_simps(2))
    then show ?thesis
      using assms(1) Inr by (simp add: fails_on_status_def seq_io_simps(1) [OF socksend_Inr])
  qed
  show "fails_on_status s fr (seq_io (socksend fr) socksuccess s)"
  proof (cases fr)
    case (Inl e)
    then show ?thesis
      by (simp add: fails_on_status_def seq_io_simps(2) [OF socksend_Inl])
  next
    case (Inr l)
    let ?s1 = "s\<lparr>sent := sent s @ [concat l]\<rparr>"
    have "inbuf ?s1 = c # rest" using assms(1) by simp
    from socksuccess_fail [OF this assms(2)]
    have "socksuccess ?s1 = (Raise (TyrantError (of_char c)), ?s1\<lparr>inbuf := rest\<rparr>)" .
    then show ?thesis
      using assms(1) Inr by (simp add: fails_on_status_def seq_io_simps(1) [OF socksend_Inr])
  qed
qed

lemma misc_on_failure:
  assumes "inbuf s = c # rest" and "of_char c \<noteq> (0::nat)"
  shows "misc func opts args s =
     (case t1FN C_misc func opts args of
        Inl e \<Rightarrow> (Raise e, s)
      | Inr l \<Rightarrow>
          if 4 \<le> length rest
          then (Raise (TyrantError (of_char c)),
                s\<lparr>sent := sent s @ [concat l], inbuf := drop 4 rest\<rparr>)
          else (Diverge, s\<lparr>sent := sent s @ [concat l], inbuf := []\<rparr>))"
proof (cases "t1FN C_misc func opts args")
  case (Inl e)
  then show ?thesis
    by (simp add: misc_def seq_io_simps(2) [OF socksend_Inl])
next
  case (Inr l)
  let ?s1 = "s\<lparr>sent := sent s @ [concat l]\<rparr>"
  have "inbuf ?s1 = c # rest" using assms(1) by simp
  from socksuccess_fail [OF this assms(2)]
  have f: "socksuccess ?s1 = (Raise (TyrantError (of_char c)), ?s1\<lparr>inbuf := rest\<rparr>)" .
  have "try_finally socksuccess socklen ?s1 =
      (if 4 \<le> length rest
       then (Raise (TyrantError (of_char c)), ?s1\<lparr>inbuf := drop 4 rest\<rparr>)
       else (Diverge, ?s1\<lparr>inbuf := []\<rparr>))"
    by (simp add: try_finally_def f socklen_eq)
  then have "then_io (try_finally socksuccess socklen) (\<lambda>numrecs. repeat_io numrecs sockstr) ?s1 =
      (if 4 \<le> length rest
       then (Raise (TyrantError (of_char c)), ?s1\<lparr>inbuf := drop 4 rest\<rparr>)
       else (Diverge, ?s1\<lparr>inbuf := []\<rparr>))"
    by (simp add: then_io_def)
  then show ?thesis
    using Inr by (simp add: misc_def seq_io_simps(1) [OF socksend_Inr])
qed

text \<open>
  Claim C2, as amended. When the response starts with a nonzero status byte, every operation
  of the command client that reads a response, other than \<open>misc\<close>, raises \<open>TyrantError\<close>
  with that byte as its code after reading that one byte and nothing more. \<open>misc\<close> reads the
  4-byte count that follows the status before the \<open>TyrantError\<close> propagates (five bytes in
  all, no element), and never returns when fewer than four bytes follow.
\<close>

theorem nonzero_status_raises:
  assumes "inbuf s = c # rest" and "of_char c \<noteq> (0::nat)"
  shows "fails_on_status s (t2 C_put key val) (put key val s)
    \<and> fails_on_status s (t2 C_putkeep key val) (putkeep key val s)
    \<and> fails_on_status s (t2 C_putcat key val) (putcat key val s)
    \<and> fails_on_status s (t2W C_putshl key val width) (putshl key val width s)
    \<and> fails_on_status s (t1 C_out key) (out key s)
    \<and> fails_on_status s (t1 C_get key) (get key s)
    \<and> fails_on_status s (tN C_mget klst) (mget klst s)
    \<and> fails_on_status s (t1 C_vsiz key) (vsiz key s)
    \<and> fails_on_status s (t0 C_iterinit) (iterinit s)
    \<and> fails_on_status s (t0 C_iternext) (iternext s)
    \<and> fails_on_status s (t1M C_fwmkeys key num) (fwmkeys key num s)
    \<and> fails_on_status s (t1M C_addint key num) (addint key num s)
    \<and> fails_on_status s
         (tDouble C_adddouble key (py_int (fst (modf x) * 10 ^ 12)) (py_int (snd (modf x))))
         (adddouble key x s)
    \<and> fails_on_status s (t3F C_ext func opts key val) (ext func opts key val s)
    \<and> fails_on_status s (t0 C_sync) (sync s)
    \<and> fails_on_status s (t0 C_vanish) (vanish s)
    \<and> fails_on_status s (t1 C_copy key) (copy key s)
    \<and> fails_on_status s (t1R C_copy key num) (restore key num s)
    \<and> fails_on_status s (t1M C_setmst key num) (setmst key num s)
    \<and> fails_on_status s (t0 C_rnum) (rnum s)
    \<and> fails_on_status s (t0 C_size) (size_db s)
    \<and> fails_on_status s (t0 C_stat) (stat s)
    \<and> misc func opts args s =
         (case t1FN C_misc func opts args of
            Inl e \<Rightarrow> (Raise e, s)
          | Inr l \<Rightarrow>
              if 4 \<le> length rest
              then (Raise (TyrantError (of_char c)),
                    s\<lparr>sent := sent s @ [concat l], inbuf := drop 4 rest\<rparr>)
              else (Diverge, s\<lparr>sent := sent s @ [concat l], inbuf := []\<rparr>))"
proof -
  note r = request_fails [OF assms]
  have "fails_on_status s (t2 C_put key val) (put key val s)"
    unfolding put_def by (rule r)
  moreover have "fails_on_status s (t2 C_putkeep key val) (putkeep key val s)"
    unfolding putkeep_def by (rule r)
  moreover have "fails_on_status s (t2 C_putcat key val) (putcat key val s)"
    unfolding putcat_def by (rule r)
  moreover have "fails_on_status s (t2W C_putshl key val width) (putshl key val width s)"
    unfolding putshl_def by (rule r)
  moreover have "fails_on_status s (t1 C_out key) (out key s)"
    unfolding out_def by (rule r)
  moreover have "fails_on_status s (t1 C_get key) (get key s)"
    unfolding get_def by (rule r)
  moreover have "fails_on_status s (tN C_mget klst) (mget klst s)"
    unfolding mget_def by (rule r)
  moreover have "fails_on_status s (t1 C_vsiz key) (vsiz key s)"
    unfolding vsiz_def by (rule r)
  moreover have "fails_on_status s (t0 C_iterinit) (iterinit s)"
    unfolding iterinit_def by (rule r)
  moreover have "fails_on_status s (t0 C_iternext) (iternext s)"
    unfolding iternext_def by (rule r)
  moreover have "fails_on_status s (t1M C_fwmkeys key num) (fwmkeys key num s)"
    unfolding fwmkeys_def by (rule r)
  moreover have "fails_on_status s (t1M C_addint key num) (addint key num s)"
    unfolding addint_def by (rule r)
  moreover have "fails_on_status s
         (tDouble C_adddouble key (py_int (fst (modf x) * 10 ^ 12)) (py_int (snd (modf x))))
         (adddouble key x s)"
    unfolding adddouble_def Let_def split_def fst_conv snd_conv by (rule r)
  moreover have "fails_on_status s (t3F C_ext func opts key val) (ext func opts key val s)"
    unfolding ext_def by (rule r)
  moreover have "fails_on_status s (t0 C_sync) (sync s)"
    unfolding sync_def by (rule r)
  moreover have "fails_on_status s (t0 C_vanish) (vanish s)"
    unfolding vanish_def by (rule r)
  moreover have "fails_on_status s (t1 C_copy key) (copy key s)"
    unfolding copy_def by (rule r)
  moreover have "fails_on_status s (t1R C_copy key num) (restore key num s)"
    unfolding restore_def by (rule r)
  moreover have "fails_on_status s (t1M C_setmst key num) (setmst key num s)"
    unfolding setmst_def by (rule r)
  moreover have "fails_on_status s (t0 C_rnum) (rnum s)"
    unfolding rnum_def by (rule r)
  moreover have "fails_on_status s (t0 C_size) (size_db s)"
    unfolding size_db_def by (rule r)
  moreover have "fails_on_status s (t0 C_stat) (stat s)"
    unfolding stat_def by (rule r)
  moreover note misc_on_failure [OF assms, of func opts args]
  ultimately show ?thesis by blast
qed

theorem nonzero_status_raises_witness:
  "get ''k'' \<lparr>inbuf = [CHR 0x01, CHR 0x00, CHR 0x00, CHR 0x00, CHR 0x00], sent = []\<rparr> =
     (Raise (TyrantError 1),
      \<lparr>inbuf = [CHR 0x00, CHR 0x00, CHR 0x00, CHR 0x00],
       sent = [[CHR 0xC8, CHR 0x30, CHR 0x00, CHR 0x00, CHR 0x00, CHR 0x01, CHR ''k'']]\<rparr>)
   \<and> misc ''getlist'' 0 [''k'']
       \<lparr>inbuf = [CHR 0x01, CHR 0x00, CHR 0x00, CHR 0x00, CHR 0x00], sent = []\<rparr> =
     (Raise (TyrantError 1),
      \<lparr>inbuf = [],
       sent = [[CHR 0xC8, CHR 0x90, CHR 0x00, CHR 0x00, CHR 0x00, CHR 0x07,
                CHR 0x00, CHR 0x00, CHR 0x00, CHR 0x00, CHR 0x00, CHR 0x00, CHR 0x00, CHR 0x01]
               @ ''getlist'' @ [CHR 0x00, CHR 0x00, CHR 0x00, CHR 0x01, CHR ''k'']]\<rparr>)"
proof -
  let ?s = "\<lparr>inbuf = [CHR 0x01, CHR 0x00, CHR 0x00, CHR 0x00, CHR 0x00], sent = []\<rparr>"
  have a: "inbuf ?s = CHR 0x01 # [CHR 0x00, CHR 0x00, CHR 0x00, CHR 0x00]" by simp
  have b: "of_char (CHR 0x01) \<noteq> (0::nat)" by simp
  have f1: "t1 C_get ''k'' = Inr [[CHR 0xC8, CHR 0x30, CHR 0x00, CHR 0x00, CHR 0x00, CHR 0x01], ''k'']"
    by code_simp
  have f2: "t1FN C_misc ''getlist'' 0 [''k''] =
      Inr [[CHR 0xC8, CHR 0x90, CHR 0x00, CHR 0x00, CHR 0x00, CHR 0x07,
            CHR 0x00, CHR 0x00, CHR 0x00, CHR 0x00, CHR 0x00, CHR 0x00, CHR 0x00, CHR 0x01],
           ''getlist'', [CHR 0x00, CHR 0x00, CHR 0x00, CHR 0x01], ''k'']"
    by code_simp
  from nonzero_status_raises [OF a b, where key = "''k''" and func = "''getlist''"
      and opts = 0 and args = "[''k'']"]
  have "fails_on_status ?s (t1 C_get ''k'') (get ''k'' ?s)"
    and "misc ''getlist'' 0 [''k''] ?s =
         (case t1FN C_misc ''getlist'' 0 [''k''] of
            Inl e \<Rightarrow> (Raise e, ?s)
          | Inr l \<Rightarrow>
              if 4 \<le> length [CHR 0x00, CHR 0x00, CHR 0x00, CHR 0x00]
              then (Raise (TyrantError (of_char (CHR 0x01))),
                    ?s\<lparr>sent := sent ?s @ [concat l], inbuf := drop 4 [CHR 0x00, CHR 0x00, CHR 0x00, CHR 0x00]\<rparr>)
              else (Diverge, ?s\<lparr>sent := sent ?s @ [concat l], inbuf := []\<rparr>))"
    by blast+
  then show ?thesis
    unfolding f1 f2 fails_on_status_def by simp
qed

text \<open>
  Claim C2 as stated fails for \<open>misc\<close>: on a response of status 1 followed by a zero count,
  \<open>misc\<close> has read all five bytes when it raises.
\<close>

theorem misc_status_counterexample:
  "\<not> fails_on_status
       \<lparr>inbuf = [CHR 0x01, CHR 0x00, CHR 0x00, CHR 0x00, CHR 0x00], sent = []\<rparr>
       (t1FN C_misc ''getlist'' 0 [''k''])
       (misc ''getlist'' 0 [''k'']
          \<lparr>inbuf = [CHR 0x01, CHR 0x00, CHR 0x00, CHR 0x00, CHR 0x00], sent = []\<rparr>)
   \<and> inbuf (snd (misc ''getlist'' 0 [''k'']
          \<lparr>inbuf = [CHR 0x01, CHR 0x00, CHR 0x00, CHR 0x00, CHR 0x00], sent = []\<rparr>)) = []"
proof -
  let ?s = "\<lparr>inbuf = [CHR 0x01, CHR 0x00, CHR 0x00, CHR 0x00, CHR 0x00], sent = []\<rparr>"
  have a: "inbuf ?s = CHR 0x01 # [CHR 0x00, CHR 0x00, CHR 0x00, CHR 0x00]" by simp
  have b: "of_char (CHR 0x01) \<noteq> (0::nat)" by simp
  have f2: "t1FN C_misc ''getlist'' 0 [''k''] =
      Inr [[CHR 0xC8, CHR 0x90, CHR 0x00, CHR 0x00, CHR 0x00, CHR 0x07,
            CHR 0x00, CHR 0x00, CHR 0x00, CHR 0x00, CHR 0x00, CHR 0x00, CHR 0x00, CHR 0x01],
           ''getlist'', [CHR 0x00, CHR 0x00, CHR 0x00, CHR 0x01], ''k'']"
    by code_simp
  show ?thesis
    unfolding misc_on_failure [OF a b] f2 fails_on_status_def by simp
qed

subsection \<open>What a call sends\<close>

lemma sockrecv_sent: "sent (snd (sockrecv n s)) = sent s"
  by (simp add: sockrecv_eq)

lemma then_io_sent:
  assumes "\<And>s. sent (snd (m s)) = sent s" and "\<And>x s. sent (snd (f x s)) = sent s"
  shows "sent (snd (then_io m f s)) = sent s"
proof (cases "m s")
  case (Pair r s')
  with assms(1) [of s] have "sent s' = sent s" by simp
  with Pair assms(2) show ?thesis
    by (cases r) (simp_all add: then_io_def)
qed

lemma return_io_sent: "sent (snd (return_io x s)) = sent s"
  by (simp add: return_io_def)

lemma socksuccess_sent': "sent (snd (socksuccess s)) = sent s"
  by (cases "socksuccess s") (simp add: socksuccess_sent)

lemma socklen_sent: "sent (snd (socklen s)) = sent s"
  by (simp add: socklen_eq)

lemma sockstr_sent: "sent (snd (sockstr s)) = sent s"
  unfolding sockstr_def by (rule then_io_sent) (simp_all add: socklen_sent sockrecv_sent)

lemma sockdouble_sent: "sent (snd (sockdouble s)) = sent s"
  unfolding sockdouble_def by (rule then_io_sent) (simp_all add: sockrecv_sent Let_def return_io_sent)

lemma repeat_io_sent:
  assumes "\<And>s. sent (snd (m s)) = sent s"
  shows "sent (snd (repeat_io n m s)) = sent s"
proof (induction n arbitrary: s)
  case 0
  show ?case by (simp add: return_io_sent)
next
  case (Suc n)
  show ?case
    unfolding repeat_io.simps
    by (rule then_io_sent, rule assms, rule then_io_sent, rule Suc.IH, rule return_io_sent)
qed

lemma try_finally_sent:
  assumes "\<And>s. sent (snd (m s)) = sent s" and "\<And>s. sent (snd (f s)) = sent s"
  shows "sent (snd (try_finally m f s)) = sent s"
proof (cases "m s")
  case (Pair r s')
  with assms(1) [of s] have e: "sent s' = sent s" by simp
  obtain r2 s2 where f: "f s' = (r2, s2)" by (cases "f s'")
  with assms(2) [of s'] e have "sent s2 = sent s" by simp
  with Pair f e show ?thesis
    by (cases r; cases r2) (simp_all add: try_finally_def)
qed

lemma request_sent:
  assumes "\<And>s. sent (snd (m s)) = sent s"
  shows "sent (snd (seq_io (socksend (Inr l)) m s)) = sent s @ [concat l]"
  using assms [of "s\<lparr>sent := sent s @ [concat l]\<rparr>"]
  by (simp add: seq_io_simps(1) [OF socksend_Inr])

lemma misc_sent:
  "t1FN C_misc func opts args = Inr l \<Longrightarrow>
   sent (snd (misc func opts args s)) = sent s @ [concat l]"
  unfolding misc_def
  by (simp, rule request_sent, rule then_io_sent, rule try_finally_sent)
     (simp_all add: socksuccess_sent' socklen_sent repeat_io_sent sockstr_sent)

subsection \<open>The adddouble frame\<close>

lemmas char_eval = char_of_def bit_Suc_0_iff

lemma be_4:
  "be 4 v = [char_of (v div 256 div 256 div 256), char_of (v div 256 div 256),
             char_of (v div 256), char_of v]"
proof -
  have "(4::nat) = Suc (Suc (Suc (Suc 0)))" by simp
  then show ?thesis by (simp only: be.simps append.simps char_of_mod_256)
qed

lemma be_8:
  "be 8 v =
     [char_of (v div 256 div 256 div 256 div 256 div 256 div 256 div 256),
      char_of (v div 256 div 256 div 256 div 256 div 256 div 256),
      char_of (v div 256 div 256 div 256 div 256 div 256),
      char_of (v div 256 div 256 div 256 div 256),
      char_of (v div 256 div 256 div 256), char_of (v div 256 div 256),
      char_of (v div 256), char_of v]"
proof -
  have "(8::nat) = Suc (Suc (Suc (Suc (Suc (Suc (Suc (Suc 0)))))))" by simp
  then show ?thesis by (simp only: be.simps append.simps char_of_mod_256)
qed

lemma modf_3_2: "modf (3 / 2) = (1 / 2, 1)"
  by (simp add: modf_def py_int_def)

lemma sockdouble_eq:
  "inbuf s = be 8 i @ be 8 f @ rest \<Longrightarrow> i < 2 ^ 64 \<Longrightarrow> f < 2 ^ 64 \<Longrightarrow>
   sockdouble s = (Ret (real i + real f * (1 / 10 ^ 12)), s\<lparr>inbuf := rest\<rparr>)"
  by (simp add: sockdouble_def then_io_def sockrecv_eq length_be Let_def return_io_def unbe_be)

text \<open>
  Claim C3. The claim puts the integer part of the delta first in the request and its
  fraction, scaled by \<open>10\<^sup>1\<^sup>2\<close>, second. \<open>adddouble\<close> passes them to \<open>tDouble\<close> the other way
  round: for the key \<open>x\<close> and the delta \<open>1.5\<close> (integer part \<open>1\<close>, scaled fraction
  \<open>500000000000\<close>) the first 8-byte field of the frame holds \<open>500000000000\<close> and the
  second holds \<open>1\<close>.
\<close>

theorem adddouble_fraction_first:
  "sent (snd (adddouble ''x'' (3 / 2) s)) =
     sent s @
     [[CHR 0xC8, CHR 0x61, CHR 0x00, CHR 0x00, CHR 0x00, CHR 0x01,
       CHR 0x00, CHR 0x00, CHR 0x00, CHR 0x74, CHR 0x6A, CHR 0x52, CHR 0x88, CHR 0x00,
       CHR 0x00, CHR 0x00, CHR 0x00, CHR 0x00, CHR 0x00, CHR 0x00, CHR 0x00, CHR 0x01,
       CHR ''x'']]
   \<and> py_int (snd (modf (3 / 2))) = 1
   \<and> py_int (fst (modf (3 / 2)) * 10 ^ 12) = 500000000000
   \<and> unbe [CHR 0x00, CHR 0x00, CHR 0x00, CHR 0x74, CHR 0x6A, CHR 0x52, CHR 0x88, CHR 0x00]
       = 500000000000
   \<and> unbe [CHR 0x00, CHR 0x00, CHR 0x00, CHR 0x00, CHR 0x00, CHR 0x00, CHR 0x00, CHR 0x01] = 1"
proof -
  have i: "py_int (snd (modf (3 / 2))) = 1"
    by (simp add: modf_3_2 py_int_def)
  have f: "py_int (fst (modf (3 / 2)) * 10 ^ 12) = 500000000000"
    by (simp add: modf_3_2 py_int_def)
  have fr: "tDouble C_adddouble ''x'' 500000000000 1 =
    Inr [[CHR 0xC8, CHR 0x61, CHR 0x00, CHR 0x00, CHR 0x00, CHR 0x01,
       CHR 0x00, CHR 0x00, CHR 0x00, CHR 0x74, CHR 0x6A, CHR 0x52, CHR 0x88, CHR 0x00,
       CHR 0x00, CHR 0x00, CHR 0x00, CHR 0x00, CHR 0x00, CHR 0x00, CHR 0x00, CHR 0x01], ''x'']"
    by (simp add: tDouble_def MAGIC_def C_adddouble_def len_def be_4 be_8 char_eval)
  have "adddouble ''x'' (3 / 2) =
      seq_io (socksend (tDouble C_adddouble ''x'' 500000000000 1)) (seq_io socksuccess sockdouble)"
    using i f by (simp add: adddouble_def Let_def split_def)
  then have 1: "sent (snd (adddouble ''x'' (3 / 2) s)) =
     sent s @
     [[CHR 0xC8, CHR 0x61, CHR 0x00, CHR 0x00, CHR 0x00, CHR 0x01,
       CHR 0x00, CHR 0x00, CHR 0x00, CHR 0x74, CHR 0x6A, CHR 0x52, CHR 0x88, CHR 0x00,
       CHR 0x00, CHR 0x00, CHR 0x00, CHR 0x00, CHR 0x00, CHR 0x00, CHR 0x00, CHR 0x01,
       CHR ''x'']]"
    unfolding fr
    by (simp, subst request_sent)
       (simp_all add: seq_io_def then_io_sent socksuccess_sent' sockdouble_sent)
  have u1: "unbe [CHR 0x00, CHR 0x00, CHR 0x00, CHR 0x74, CHR 0x6A, CHR 0x52, CHR 0x88, CHR 0x00]
       = 500000000000"
    by (simp add: unbe_def)
  have u2: "unbe [CHR 0x00, CHR 0x00, CHR 0x00, CHR 0x00, CHR 0x00, CHR 0x00, CHR 0x00, CHR 0x01] = 1"
    by (simp add: unbe_def)
  from 1 i f u1 u2 show ?thesis by blast
qed

subsection \<open>Bulk get\<close>

lemma repeat_sockstr:
  assumes "\<forall>r \<in> set rs. length r < 2 ^ 32"
    and "inbuf s = concat (map wire_str rs) @ rest"
  shows "repeat_io (length rs) sockstr s = (Ret rs, s\<lparr>inbuf := rest\<rparr>)"
  using assms
proof (induction rs arbitrary: s)
  case Nil
  then show ?case by (simp add: return_io_def)
next
  case (Cons r rs)
  from Cons.prems have len: "length r < 2 ^ 32" by simp
  from Cons.prems have "inbuf s = be 4 (length r) @ r @ (concat (map wire_str rs) @ rest)"
    by simp
  from sockstr_be [OF this len]
  have 1: "sockstr s = (Ret r, s\<lparr>inbuf := concat (map wire_str rs) @ rest\<rparr>)" .
  have 2: "repeat_io (length rs) sockstr (s\<lparr>inbuf := concat (map wire_str rs) @ rest\<rparr>) =
      (Ret rs, s\<lparr>inbuf := rest\<rparr>)"
    using Cons.IH [of "s\<lparr>inbuf := concat (map wire_str rs) @ rest\<rparr>"] Cons.prems by simp
  show ?case
    by (simp add: then_io_def 1 2 return_io_def)
qed

lemma misc_ok:
  assumes fr: "t1FN C_misc func opts args = Inr l"
    and inb: "inbuf s = CHR 0x00 # be 4 (length rs) @ concat (map wire_str rs) @ rest"
    and n: "length rs < 2 ^ 32"
    and lens: "\<forall>r \<in> set rs. length r < 2 ^ 32"
  shows "misc func opts args s = (Ret rs, s\<lparr>sent := sent s @ [concat l], inbuf := rest\<rparr>)"
proof -
  let ?s1 = "s\<lparr>sent := sent s @ [concat l]\<rparr>"
  let ?s2 = "?s1\<lparr>inbuf := be 4 (length rs) @ concat (map wire_str rs) @ rest\<rparr>"
  let ?s3 = "?s2\<lparr>inbuf := concat (map wire_str rs) @ rest\<rparr>"
  have "inbuf ?s1 = CHR 0x00 # be 4 (length rs) @ concat (map wire_str rs) @ rest"
    using inb by simp
  then have a: "socksuccess ?s1 = (Ret (), ?s2)"
    by (rule socksuccess_ok) simp
  have b: "socklen ?s2 = (Ret (length rs), ?s3)"
    using n by (intro socklen_be) simp_all
  have c: "try_finally socksuccess socklen ?s1 = (Ret (length rs), ?s3)"
    by (simp add: try_finally_def a b)
  have d: "repeat_io (length rs) sockstr ?s3 = (Ret rs, ?s3\<lparr>inbuf := rest\<rparr>)"
    by (rule repeat_sockstr [OF lens]) simp
  show ?thesis
    unfolding misc_def fr
    using d by (simp add: seq_io_def then_io_def socksend_Inr c)
qed

lemma pairs_of_even:
  "even (length xs) \<Longrightarrow> \<exists>ps. pairs_of xs = Inr ps \<and> concat (map (\<lambda>(k, v). [k, v]) ps) = xs"
  by (induction xs rule: pairs_of.induct) auto

lemma pairs_of_odd: "odd (length xs) \<Longrightarrow> pairs_of xs = Inl IndexError"
  by (induction xs rule: pairs_of.induct) auto

lemma multi_get_eq:
  assumes "misc ''getlist'' (if no_update_log then RDBMONOULOG else 0) keys s = (Ret rval, s')"
  shows "multi_get keys no_update_log s =
      (if length rval \<le> length keys then
         (if length rval < length keys then (Raise KeyError, s') else (Ret (map Some rval), s'))
       else
         (case list_to_dict rval of
            Inl e \<Rightarrow> (Raise e, s')
          | Inr d \<Rightarrow> (Ret (map d keys), s')))"
  by (simp add: multi_get_def Let_def then_io_def assms return_io_def split: sum.split)

lemma getlist_frame_ab:
  "t1FN C_misc ''getlist'' 0 [''a'', ''b''] =
     Inr [[CHR 0xC8, CHR 0x90, CHR 0x00, CHR 0x00, CHR 0x00, CHR 0x07,
           CHR 0x00, CHR 0x00, CHR 0x00, CHR 0x00, CHR 0x00, CHR 0x00, CHR 0x00, CHR 0x02],
          ''getlist'', [CHR 0x00, CHR 0x00, CHR 0x00, CHR 0x01], ''a'',
          [CHR 0x00, CHR 0x00, CHR 0x00, CHR 0x01], ''b'']"
  by (simp add: t1FN_def MAGIC_def C_misc_def len_def be_4 char_eval)

lemma getlist_frame_a:
  "t1FN C_misc ''getlist'' 0 [''a''] =
     Inr [[CHR 0xC8, CHR 0x90, CHR 0x00, CHR 0x00, CHR 0x00, CHR 0x07,
           CHR 0x00, CHR 0x00, CHR 0x00, CHR 0x00, CHR 0x00, CHR 0x00, CHR 0x00, CHR 0x01],
          ''getlist'', [CHR 0x00, CHR 0x00, CHR 0x00, CHR 0x01], ''a'']"
  by (simp add: t1FN_def MAGIC_def C_misc_def len_def be_4 char_eval)

text \<open>
  Claim C1, as amended. Let the \<open>getlist\<close> call of a bulk get for \<open>N\<close> keys return \<open>rval\<close>.
  With fewer than \<open>N\<close> entries, \<open>KeyError\<close> (the unusable-response error) is raised. With
  exactly \<open>N\<close> entries, they are returned as the values, in request order. With more than
  \<open>N\<close> entries and an even number of them, \<open>rval\<close> is read as interleaved key/value pairs
  and the result gives, for each requested key in request order, the value of the last pair
  with that key, or \<open>None\<close> when no pair has it. With more than \<open>N\<close> entries and an odd
  number of them, the pair decoding raises \<open>IndexError\<close>.
\<close>

theorem multi_get_shapes:
  assumes "misc ''getlist'' (if no_update_log then RDBMONOULOG else 0) keys s = (Ret rval, s')"
  shows "(length rval < length keys \<longrightarrow> multi_get keys no_update_log s = (Raise KeyError, s'))
    \<and> (length rval = length keys \<longrightarrow> multi_get keys no_update_log s = (Ret (map Some rval), s'))
    \<and> (length keys < length rval \<and> even (length rval) \<longrightarrow>
         (\<exists>ps. pairs_of rval = Inr ps \<and> concat (map (\<lambda>(k, v). [k, v]) ps) = rval
            \<and> multi_get keys no_update_log s = (Ret (map (map_of (rev ps)) keys), s')))
    \<and> (length keys < length rval \<and> odd (length rval) \<longrightarrow>
         multi_get keys no_update_log s = (Raise IndexError, s'))"
proof -
  note mg = multi_get_eq [OF assms]
  have 1: "length rval < length keys \<longrightarrow> multi_get keys no_update_log s = (Raise KeyError, s')"
    by (simp add: mg)
  have 2: "length rval = length keys \<longrightarrow> multi_get keys no_update_log s = (Ret (map Some rval), s')"
    by (simp add: mg)
  have 3: "length keys < length rval \<and> even (length rval) \<longrightarrow>
         (\<exists>ps. pairs_of rval = Inr ps \<and> concat (map (\<lambda>(k, v). [k, v]) ps) = rval
            \<and> multi_get keys no_update_log s = (Ret (map (map_of (rev ps)) keys), s'))"
  proof
    assume h: "length keys < length rval \<and> even (length rval)"
    then obtain ps where ps: "pairs_of rval = Inr ps" "concat (map (\<lambda>(k, v). [k, v]) ps) = rval"
      using pairs_of_even by blast
    with h have "multi_get keys no_update_log s = (Ret (map (map_of (rev ps)) keys), s')"
      by (simp add: mg list_to_dict_def)
    with ps show "\<exists>ps. pairs_of rval = Inr ps \<and> concat (map (\<lambda>(k, v). [k, v]) ps) = rval
            \<and> multi_get keys no_update_log s = (Ret (map (map_of (rev ps)) keys), s')"
      by blast
  qed
  have 4: "length keys < length rval \<and> odd (length rval) \<longrightarrow>
         multi_get keys no_update_log s = (Raise IndexError, s')"
    by (simp add: mg list_to_dict_def pairs_of_odd)
  from 1 2 3 4 show ?thesis by blast
qed

theorem multi_get_shapes_witness:
  "multi_get [''a'', ''b''] False
     \<lparr>inbuf = [CHR 0x00, CHR 0x00, CHR 0x00, CHR 0x00, CHR 0x04,
               CHR 0x00, CHR 0x00, CHR 0x00, CHR 0x01, CHR ''b'',
               CHR 0x00, CHR 0x00, CHR 0x00, CHR 0x01, CHR ''2'',
               CHR 0x00, CHR 0x00, CHR 0x00, CHR 0x01, CHR ''a'',
               CHR 0x00, CHR 0x00, CHR 0x00, CHR 0x01, CHR ''1''],
      sent = []\<rparr>
   = (Ret [Some ''1'', Some ''2''],
      \<lparr>inbuf = [],
       sent = [[CHR 0xC8, CHR 0x90, CHR 0x00, CHR 0x00, CHR 0x00, CHR 0x07,
                CHR 0x00, CHR 0x00, CHR 0x00, CHR 0x00, CHR 0x00, CHR 0x00, CHR 0x00, CHR 0x02]
               @ ''getlist'' @ [CHR 0x00, CHR 0x00, CHR 0x00, CHR 0x01, CHR ''a'',
                                CHR 0x00, CHR 0x00, CHR 0x00, CHR 0x01, CHR ''b'']]\<rparr>)"
proof -
  let ?s = "\<lparr>inbuf = [CHR 0x00, CHR 0x00, CHR 0x00, CHR 0x00, CHR 0x04,
               CHR 0x00, CHR 0x00, CHR 0x00, CHR 0x01, CHR ''b'',
               CHR 0x00, CHR 0x00, CHR 0x00, CHR 0x01, CHR ''2'',
               CHR 0x00, CHR 0x00, CHR 0x00, CHR 0x01, CHR ''a'',
               CHR 0x00, CHR 0x00, CHR 0x00, CHR 0x01, CHR ''1''],
      sent = []\<rparr>"
  let ?rs = "[''b'', ''2'', ''a'', ''1'']"
  have "be 4 (4::nat) = [CHR 0x00, CHR 0x00, CHR 0x00, CHR 0x04]"
    by (simp add: be_4 char_eval)
  moreover have "length ?rs = 4" by simp
  ultimately have "be 4 (length ?rs) = [CHR 0x00, CHR 0x00, CHR 0x00, CHR 0x04]"
    by (simp only:)
  then have inb: "inbuf ?s = CHR 0x00 # be 4 (length ?rs) @ concat (map wire_str ?rs) @ []"
    by (simp add: be_4 char_eval)
  have m: "misc ''getlist'' (if False then RDBMONOULOG else 0) [''a'', ''b''] ?s =
      (Ret ?rs, ?s\<lparr>sent := sent ?s @ [concat
        [[CHR 0xC8, CHR 0x90, CHR 0x00, CHR 0x00, CHR 0x00, CHR 0x07,
           CHR 0x00, CHR 0x00, CHR 0x00, CHR 0x00, CHR 0x00, CHR 0x00, CHR 0x00, CHR 0x02],
          ''getlist'', [CHR 0x00, CHR 0x00, CHR 0x00, CHR 0x01], ''a'',
          [CHR 0x00, CHR 0x00, CHR 0x00, CHR 0x01], ''b'']], inbuf := []\<rparr>)"
    using misc_ok [OF getlist_frame_ab inb] by simp
  from multi_get_shapes [OF m]
  obtain ps where "pairs_of ?rs = Inr ps"
    and r: "multi_get [''a'', ''b''] False ?s =
      (Ret (map (map_of (rev ps)) [''a'', ''b'']), ?s\<lparr>sent := sent ?s @ [concat
        [[CHR 0xC8, CHR 0x90, CHR 0x00, CHR 0x00, CHR 0x00, CHR 0x07,
           CHR 0x00, CHR 0x00, CHR 0x00, CHR 0x00, CHR 0x00, CHR 0x00, CHR 0x00, CHR 0x02],
          ''getlist'', [CHR 0x00, CHR 0x00, CHR 0x00, CHR 0x01], ''a'',
          [CHR 0x00, CHR 0x00, CHR 0x00, CHR 0x01], ''b'']], inbuf := []\<rparr>)"
    by auto
  then have "ps = [(''b'', ''2''), (''a'', ''1'')]" by simp
  with r show ?thesis by simp
qed

text \<open>
  Claim C1 as stated fails on a response with more entries than keys and an odd number of
  them: one key requested, three entries returned, and \<open>multi_get\<close> raises \<open>IndexError\<close>
  instead of returning a list.
\<close>

theorem multi_get_odd_counterexample:
  "fst (misc ''getlist'' 0 [''a'']
     \<lparr>inbuf = [CHR 0x00, CHR 0x00, CHR 0x00, CHR 0x00, CHR 0x03,
               CHR 0x00, CHR 0x00, CHR 0x00, CHR 0x01, CHR ''a'',
               CHR 0x00, CHR 0x00, CHR 0x00, CHR 0x01, CHR ''1'',
               CHR 0x00, CHR 0x00, CHR 0x00, CHR 0x01, CHR ''b''],
      sent = []\<rparr>) = Ret [''a'', ''1'', ''b'']
   \<and> fst (multi_get [''a''] False
     \<lparr>inbuf = [CHR 0x00, CHR 0x00, CHR 0x00, CHR 0x00, CHR 0x03,
               CHR 0x00, CHR 0x00, CHR 0x00, CHR 0x01, CHR ''a'',
               CHR 0x00, CHR 0x00, CHR 0x00, CHR 0x01, CHR ''1'',
               CHR 0x00, CHR 0x00, CHR 0x00, CHR 0x01, CHR ''b''],
      sent = []\<rparr>) = Raise IndexError"
proof -
  let ?s = "\<lparr>inbuf = [CHR 0x00, CHR 0x00, CHR 0x00, CHR 0x00, CHR 0x03,
               CHR 0x00, CHR 0x00, CHR 0x00, CHR 0x01, CHR ''a'',
               CHR 0x00, CHR 0x00, CHR 0x00, CHR 0x01, CHR ''1'',
               CHR 0x00, CHR 0x00, CHR 0x00, CHR 0x01, CHR ''b''],
      sent = []\<rparr>"
  let ?rs = "[''a'', ''1'', ''b'']"
  have "be 4 (3::nat) = [CHR 0x00, CHR 0x00, CHR 0x00, CHR 0x03]"
    by (simp add: be_4 char_eval)
  moreover have "length ?rs = 3" by simp
  ultimately have "be 4 (length ?rs) = [CHR 0x00, CHR 0x00, CHR 0x00, CHR 0x03]"
    by (simp only:)
  then have inb: "inbuf ?s = CHR 0x00 # be 4 (length ?rs) @ concat (map wire_str ?rs) @ []"
    by (simp add: be_4 char_eval)
  from misc_ok [OF getlist_frame_a inb]
  obtain s' where m: "misc ''getlist'' 0 [''a''] ?s = (Ret ?rs, s')" by simp
  then have m': "misc ''getlist'' (if False then RDBMONOULOG else 0) [''a''] ?s = (Ret ?rs, s')"
    by simp
  have "multi_get [''a''] False ?s = (Raise IndexError, s')"
    unfolding multi_get_eq [OF m'] by (simp add: list_to_dict_def)
  with m show ?thesis by simp
qed

subsection \<open>Python steps\<close>

lemma every_count:
  assumes "0 < (m::nat)" and "0 < (n::nat)"
  shows "(n + m - 1) div m = (n - 1) div m + 1"
proof -
  from assms have "n + m - 1 = (n - 1) + 1 * m" by simp
  then have "(n + m - 1) div m = ((n - 1) + 1 * m) div m" by simp
  also have "\<dots> = (n - 1) div m + 1" using assms(1) by (simp only: div_mult_self1)
  finally show ?thesis .
qed

lemma getslice_step_pos:
  assumes "0 < st"
  shows "getslice xs None None (Some st) = Inr (every (nat st) xs)"
proof (cases "xs = []")
  case True
  with assms show ?thesis by (simp add: getslice_def every_def len_def)
next
  case False
  then have n: "0 < length xs" by simp
  from assms have m: "0 < nat st" by simp
  have cnt: "nat ((int (length xs) - 1) div st + 1) = (length xs + nat st - 1) div nat st"
  proof -
    have "int (length xs) - 1 = int (length xs - 1)" using n by arith
    moreover have "st = int (nat st)" using assms by simp
    ultimately have "(int (length xs) - 1) div st = int ((length xs - 1) div nat st)"
      by (metis zdiv_int)
    then have "nat ((int (length xs) - 1) div st + 1) = (length xs - 1) div nat st + 1" by simp
    with every_count [OF m n] show ?thesis by simp
  qed
  have idx: "\<And>i. nat (int i * st) = i * nat st"
    using assms by (simp add: nat_mult_distrib)
  have "getslice xs None None (Some st) =
      Inr (map (\<lambda>i. xs ! nat (int i * st)) [0..<nat ((int (length xs) - 1) div st + 1)])"
    using assms n by (simp add: getslice_def len_def Let_def)
  then show ?thesis
    by (simp only: cnt idx every_def)
qed

lemma getslice_step_neg:
  assumes "st < 0"
  shows "getslice xs None None (Some st) = Inr (every (nat (- st)) (rev xs))"
proof (cases "xs = []")
  case True
  with assms show ?thesis by (simp add: getslice_def every_def len_def)
next
  case False
  then have n: "0 < length xs" by simp
  from assms have m: "0 < nat (- st)" by simp
  have cnt: "nat ((1 - int (length xs)) div st + 1) = (length xs + nat (- st) - 1) div nat (- st)"
  proof -
    have "1 - int (length xs) = - int (length xs - 1)" using n by arith
    moreover have "st = - int (nat (- st))" using assms by simp
    ultimately have "(1 - int (length xs)) div st = int ((length xs - 1) div nat (- st))"
      by (metis div_minus_minus zdiv_int)
    then have "nat ((1 - int (length xs)) div st + 1) = (length xs - 1) div nat (- st) + 1"
      by simp
    with every_count [OF m n] show ?thesis by simp
  qed
  have idx: "xs ! nat (int (length xs) - 1 + int i * st) = rev xs ! (i * nat (- st))"
    if "i < (length xs + nat (- st) - 1) div nat (- st)" for i
  proof -
    from that every_count [OF m n] have "i \<le> (length xs - 1) div nat (- st)" by simp
    then have "i * nat (- st) \<le> (length xs - 1) div nat (- st) * nat (- st)"
      by (rule mult_le_mono1)
    also have "\<dots> \<le> length xs - 1" by simp
    finally have le: "i * nat (- st) \<le> length xs - 1" .
    with n have lt: "i * nat (- st) < length xs" by arith
    have "int i * st = - int (i * nat (- st))" using assms by simp
    with le n have "nat (int (length xs) - 1 + int i * st) = length xs - Suc (i * nat (- st))"
      by arith
    with rev_nth [OF lt] show ?thesis by simp
  qed
  have "getslice xs None None (Some st) =
      Inr (map (\<lambda>i. xs ! nat (int (length xs) - 1 + int i * st))
             [0..<nat ((1 - int (length xs)) div st + 1)])"
    using assms n by (simp add: getslice_def len_def Let_def)
  also have "\<dots> = Inr (map (\<lambda>i. rev xs ! (i * nat (- st)))
             [0..<(length xs + nat (- st) - 1) div nat (- st)])"
    unfolding cnt using idx by simp
  finally show ?thesis using assms by (simp add: every_def)
qed

lemma getslice_step:
  "st \<noteq> 0 \<Longrightarrow> getslice xs None None (Some st) = Inr (py_step st xs)"
  using getslice_step_pos [of st xs] getslice_step_neg [of st xs]
  by (cases "0 < st") (simp_all add: py_step_def)

lemma every_nonempty: "0 < n \<Longrightarrow> xs \<noteq> [] \<Longrightarrow> every n xs \<noteq> []"
proof -
  assume n: "0 < n" and "xs \<noteq> []"
  then have "0 < length xs" by simp
  from every_count [OF n this] show ?thesis by (simp add: every_def)
qed

lemma py_step_Nil_iff: "st \<noteq> 0 \<Longrightarrow> py_step st xs = [] \<longleftrightarrow> xs = []"
proof
  assume st: "st \<noteq> 0" and e: "py_step st xs = []"
  show "xs = []"
  proof (rule ccontr)
    assume ne: "xs \<noteq> []"
    show False
    proof (cases "0 < st")
      case True
      then have "0 < nat st" by simp
      from every_nonempty [OF this ne] e True show False by (simp add: py_step_def)
    next
      case False
      with st have "0 < nat (- st)" by simp
      moreover from ne have "rev xs \<noteq> []" by simp
      ultimately have "every (nat (- st)) (rev xs) \<noteq> []" by (rule every_nonempty)
      with e False show False by (simp add: py_step_def)
    qed
  qed
next
  assume "st \<noteq> 0" and "xs = []"
  then show "py_step st xs = []" by (simp add: py_step_def every_def)
qed

subsection \<open>Indexing a Query\<close>

lemma misc_sent_eq:
  "sent (snd (misc func opts args s)) =
     (case t1FN C_misc func opts args of Inl e \<Rightarrow> sent s | Inr l \<Rightarrow> sent s @ [concat l])"
proof (cases "t1FN C_misc func opts args")
  case (Inl e)
  then show ?thesis by (simp add: misc_def seq_io_def then_io_def socksend_Inl)
next
  case (Inr l)
  then show ?thesis by (simp add: misc_sent)
qed

lemma then_io_return_sent:
  "sent (snd (then_io m (\<lambda>x. return_io (f x)) s)) = sent (snd (m s))"
  by (cases "m s" rule: prod.exhaust, rename_tac r s', case_tac r)
     (simp_all add: then_io_def return_io_def)

lemma then_io_return_case:
  "then_io m (\<lambda>x. return_io (f x)) s =
     (case m s of
        (Ret x, s') \<Rightarrow> (Ret (f x), s')
      | (Raise e, s') \<Rightarrow> (Raise e, s')
      | (Diverge, s') \<Rightarrow> (Diverge, s'))"
  by (simp add: then_io_def return_io_def split: prod.split res.split)

lemma setlimit_eq:
  "setlimit limit offset = ''setlimit'' @ [CHR 0x00] @ str_int limit @ [CHR 0x00] @ str_int offset"
  by (simp add: setlimit_def)

lemma str_int_1: "str_int 1 = ''1''"
  by (simp add: str_int_def digits.simps char_eval)

lemma getitem_Other: "getitem h q Other s = (Raise TypeError, s)"
  by (simp add: getitem_def raise_io_def)

lemma getitem_invalid:
  "k \<noteq> Other \<Longrightarrow> \<not> index_ok k \<Longrightarrow> getitem h q k s = (Raise AssertionError, s)"
  by (simp add: getitem_def raise_io_def)

lemma getitem_search_index:
  assumes "result_cache q = None \<or> result_cache q = Some []" and "0 \<le> k"
  shows "getitem h q (Index k) =
     then_io (misc ''search'' 0 (h ! conditions q @ [setlimit 1 k]))
       (\<lambda>resp. return_io (case resp of [] \<Rightarrow> PyNone | x # xs \<Rightarrow> Str x))"
proof -
  have "(\<lambda>resp. if resp = [] then return_io PyNone else return_io (Str (hd resp))) =
        (\<lambda>resp. return_io (case resp of [] \<Rightarrow> PyNone | x # xs \<Rightarrow> Str x))"
    by (rule ext) (simp split: list.split)
  with assms show ?thesis
    by (auto simp: getitem_def Let_def)
qed

lemma be4_small:
  "be 4 0 = [CHR 0x00, CHR 0x00, CHR 0x00, CHR 0x00]"
  "be 4 (Suc 0) = [CHR 0x00, CHR 0x00, CHR 0x00, CHR 0x01]"
  "be 4 (Suc (Suc 0)) = [CHR 0x00, CHR 0x00, CHR 0x00, CHR 0x02]"
  "be 4 (Suc (Suc (Suc 0))) = [CHR 0x00, CHR 0x00, CHR 0x00, CHR 0x03]"
  "be 4 (Suc (Suc (Suc (Suc 0)))) = [CHR 0x00, CHR 0x00, CHR 0x00, CHR 0x04]"
proof -
  show "be 4 0 = [CHR 0x00, CHR 0x00, CHR 0x00, CHR 0x00]"
    by (simp add: be_4 char_eval)
  show "be 4 (Suc 0) = [CHR 0x00, CHR 0x00, CHR 0x00, CHR 0x01]"
    by (simp add: be_4 char_eval)
  have e2: "Suc (Suc 0) = 2" by simp
  show "be 4 (Suc (Suc 0)) = [CHR 0x00, CHR 0x00, CHR 0x00, CHR 0x02]"
    unfolding e2 by (simp add: be_4 char_eval)
  have e3: "Suc (Suc (Suc 0)) = 3" by simp
  show "be 4 (Suc (Suc (Suc 0))) = [CHR 0x00, CHR 0x00, CHR 0x00, CHR 0x03]"
    unfolding e3 by (simp add: be_4 char_eval)
  have e4: "Suc (Suc (Suc (Suc 0))) = 4" by simp
  show "be 4 (Suc (Suc (Suc (Suc 0)))) = [CHR 0x00, CHR 0x00, CHR 0x00, CHR 0x04]"
    unfolding e4 by (simp add: be_4 char_eval)
qed

lemma search_frame_7:
  "t1FN C_misc ''search'' 0 [''setlimit'' @ [CHR 0x00] @ ''1'' @ [CHR 0x00] @ ''7''] =
     Inr [[CHR 0xC8, CHR 0x90, CHR 0x00, CHR 0x00, CHR 0x00, CHR 0x06,
           CHR 0x00, CHR 0x00, CHR 0x00, CHR 0x00, CHR 0x00, CHR 0x00, CHR 0x00, CHR 0x01],
          ''search'', [CHR 0x00, CHR 0x00, CHR 0x00, CHR 0x0C],
          ''setlimit'' @ [CHR 0x00] @ ''1'' @ [CHR 0x00] @ ''7'']"
  by (simp add: t1FN_def MAGIC_def C_misc_def len_def be_4 char_eval)

text \<open>
  Claim C7. For every Query, whatever its cache: indexing with a negative integer, or with a
  slice whose start or stop is negative, raises \<open>AssertionError\<close> (the validation error),
  and indexing with a value that is neither an integer nor a slice raises \<open>TypeError\<close>; in
  each case the connection is left as it was, so nothing was sent and nothing read.
\<close>

theorem getitem_validation:
  "(i < 0 \<longrightarrow> getitem h q (Index i) s = (Raise AssertionError, s))
   \<and> ((\<exists>a. start = Some a \<and> a < 0) \<or> (\<exists>b. stop = Some b \<and> b < 0) \<longrightarrow>
        getitem h q (Slice start stop step) s = (Raise AssertionError, s))
   \<and> getitem h q Other s = (Raise TypeError, s)"
proof -
  have "i < 0 \<longrightarrow> getitem h q (Index i) s = (Raise AssertionError, s)"
    by (simp add: getitem_invalid)
  moreover have "(\<exists>a. start = Some a \<and> a < 0) \<or> (\<exists>b. stop = Some b \<and> b < 0) \<longrightarrow>
        getitem h q (Slice start stop step) s = (Raise AssertionError, s)"
    by (auto simp: getitem_invalid)
  ultimately show ?thesis by (simp add: getitem_Other)
qed

theorem getitem_validation_witness:
  "getitem [[''addcond'']] \<lparr>ptt = 0, conditions = 0, result_cache = Some [''k1'', ''k2'']\<rparr>
     (Index (- 1)) \<lparr>inbuf = [], sent = []\<rparr> = (Raise AssertionError, \<lparr>inbuf = [], sent = []\<rparr>)
   \<and> getitem [[''addcond'']] \<lparr>ptt = 0, conditions = 0, result_cache = None\<rparr>
     (Slice (Some 2) (Some (- 5)) None) \<lparr>inbuf = [], sent = []\<rparr> =
       (Raise AssertionError, \<lparr>inbuf = [], sent = []\<rparr>)
   \<and> getitem [[''addcond'']] \<lparr>ptt = 0, conditions = 0, result_cache = None\<rparr>
     (Slice (Some (- 2)) None (Some 3)) \<lparr>inbuf = [], sent = []\<rparr> =
       (Raise AssertionError, \<lparr>inbuf = [], sent = []\<rparr>)
   \<and> getitem [[''addcond'']] \<lparr>ptt = 0, conditions = 0, result_cache = None\<rparr>
     Other \<lparr>inbuf = [], sent = []\<rparr> = (Raise TypeError, \<lparr>inbuf = [], sent = []\<rparr>)"
  using
    getitem_validation [where i = "- 1" and h = "[[''addcond'']]"
      and q = "\<lparr>ptt = 0, conditions = 0, result_cache = Some [''k1'', ''k2'']\<rparr>"
      and s = "\<lparr>inbuf = [], sent = []\<rparr>"]
    getitem_validation [where start = "Some 2" and stop = "Some (- 5)" and step = None
      and h = "[[''addcond'']]"
      and q = "\<lparr>ptt = 0, conditions = 0, result_cache = None\<rparr>"
      and s = "\<lparr>inbuf = [], sent = []\<rparr>"]
    getitem_validation [where start = "Some (- 2)" and stop = None and step = "Some 3"
      and h = "[[''addcond'']]"
      and q = "\<lparr>ptt = 0, conditions = 0, result_cache = None\<rparr>"
      and s = "\<lparr>inbuf = [], sent = []\<rparr>"]
  by simp

text \<open>
  Claim C6. For every Query with an unpopulated result cache and every index \<open>k \<ge> 0\<close>:
  indexing makes the call \<open>misc ''search'' 0\<close> on the query's conditions followed by the
  condition \<^verbatim>\<open>setlimit\<close>, \<^verbatim>\<open>1\<close>, \<open>str_int k\<close> (joined by zero bytes), and returns the first
  result, or \<open>PyNone\<close> when the response is empty. Exactly one frame is sent, the frame of
  that call.
\<close>

theorem getitem_index:
  assumes "result_cache q = None" and "0 \<le> k"
  shows "getitem h q (Index k) s =
     (case misc ''search'' 0
             (h ! conditions q @ [''setlimit'' @ [CHR 0x00] @ ''1'' @ [CHR 0x00] @ str_int k]) s of
        (Ret resp, s') \<Rightarrow> (Ret (case resp of [] \<Rightarrow> PyNone | x # xs \<Rightarrow> Str x), s')
      | (Raise e, s') \<Rightarrow> (Raise e, s')
      | (Diverge, s') \<Rightarrow> (Diverge, s'))
   \<and> sent (snd (getitem h q (Index k) s)) =
     (case t1FN C_misc ''search'' 0
             (h ! conditions q @ [''setlimit'' @ [CHR 0x00] @ ''1'' @ [CHR 0x00] @ str_int k]) of
        Inl e \<Rightarrow> sent s
      | Inr l \<Rightarrow> sent s @ [concat l])"
proof -
  from assms have g: "getitem h q (Index k) =
     then_io (misc ''search'' 0 (h ! conditions q @ [setlimit 1 k]))
       (\<lambda>resp. return_io (case resp of [] \<Rightarrow> PyNone | x # xs \<Rightarrow> Str x))"
    by (simp add: getitem_search_index)
  have c: "setlimit 1 k = ''setlimit'' @ [CHR 0x00] @ ''1'' @ [CHR 0x00] @ str_int k"
    by (simp only: setlimit_eq str_int_1)
  have 1: "getitem h q (Index k) s =
     (case misc ''search'' 0
             (h ! conditions q @ [''setlimit'' @ [CHR 0x00] @ ''1'' @ [CHR 0x00] @ str_int k]) s of
        (Ret resp, s') \<Rightarrow> (Ret (case resp of [] \<Rightarrow> PyNone | x # xs \<Rightarrow> Str x), s')
      | (Raise e, s') \<Rightarrow> (Raise e, s')
      | (Diverge, s') \<Rightarrow> (Diverge, s'))"
    unfolding g c then_io_return_case ..
  have 2: "sent (snd (getitem h q (Index k) s)) =
     (case t1FN C_misc ''search'' 0
             (h ! conditions q @ [''setlimit'' @ [CHR 0x00] @ ''1'' @ [CHR 0x00] @ str_int k]) of
        Inl e \<Rightarrow> sent s
      | Inr l \<Rightarrow> sent s @ [concat l])"
    unfolding g c then_io_return_sent misc_sent_eq ..
  from 1 2 show ?thesis ..
qed

theorem getitem_index_witness:
  "getitem [[]] \<lparr>ptt = 0, conditions = 0, result_cache = None\<rparr> (Index 7)
     \<lparr>inbuf = [CHR 0x00, CHR 0x00, CHR 0x00, CHR 0x00, CHR 0x01,
               CHR 0x00, CHR 0x00, CHR 0x00, CHR 0x04] @ ''key7'', sent = []\<rparr>
   = (Ret (Str ''key7''),
      \<lparr>inbuf = [],
       sent = [[CHR 0xC8, CHR 0x90, CHR 0x00, CHR 0x00, CHR 0x00, CHR 0x06,
                CHR 0x00, CHR 0x00, CHR 0x00, CHR 0x00, CHR 0x00, CHR 0x00, CHR 0x00, CHR 0x01]
               @ ''search'' @ [CHR 0x00, CHR 0x00, CHR 0x00, CHR 0x0C]
               @ ''setlimit'' @ [CHR 0x00] @ ''1'' @ [CHR 0x00] @ ''7'']\<rparr>)
   \<and> getitem [[]] \<lparr>ptt = 0, conditions = 0, result_cache = None\<rparr> (Index 7)
     \<lparr>inbuf = [CHR 0x00, CHR 0x00, CHR 0x00, CHR 0x00, CHR 0x00], sent = []\<rparr>
   = (Ret PyNone,
      \<lparr>inbuf = [],
       sent = [[CHR 0xC8, CHR 0x90, CHR 0x00, CHR 0x00, CHR 0x00, CHR 0x06,
                CHR 0x00, CHR 0x00, CHR 0x00, CHR 0x00, CHR 0x00, CHR 0x00, CHR 0x00, CHR 0x01]
               @ ''search'' @ [CHR 0x00, CHR 0x00, CHR 0x00, CHR 0x0C]
               @ ''setlimit'' @ [CHR 0x00] @ ''1'' @ [CHR 0x00] @ ''7'']\<rparr>)"
proof -
  let ?q = "\<lparr>ptt = 0, conditions = 0, result_cache = None\<rparr>"
  let ?s1 = "\<lparr>inbuf = [CHR 0x00, CHR 0x00, CHR 0x00, CHR 0x00, CHR 0x01,
               CHR 0x00, CHR 0x00, CHR 0x00, CHR 0x04] @ ''key7'', sent = []\<rparr>"
  let ?s2 = "\<lparr>inbuf = [CHR 0x00, CHR 0x00, CHR 0x00, CHR 0x00, CHR 0x00], sent = []\<rparr>"
  have q: "result_cache ?q = None" by simp
  have k: "(0::int) \<le> 7" by simp
  have s7: "str_int 7 = ''7''"
    by (simp add: str_int_def digits.simps char_eval)
  have i1: "inbuf ?s1 = CHR 0x00 # be 4 (length [''key7'']) @ concat (map wire_str [''key7'']) @ []"
    by (simp add: be4_small)
  have i2: "inbuf ?s2 = CHR 0x00 # be 4 (length ([]::string list)) @ concat (map wire_str []) @ []"
    by (simp add: be4_small)
  have m1: "misc ''search'' 0 [''setlimit'' @ [CHR 0x00] @ ''1'' @ [CHR 0x00] @ ''7''] ?s1 =
      (Ret [''key7''], \<lparr>inbuf = [],
       sent = [[CHR 0xC8, CHR 0x90, CHR 0x00, CHR 0x00, CHR 0x00, CHR 0x06,
                CHR 0x00, CHR 0x00, CHR 0x00, CHR 0x00, CHR 0x00, CHR 0x00, CHR 0x00, CHR 0x01]
               @ ''search'' @ [CHR 0x00, CHR 0x00, CHR 0x00, CHR 0x0C]
               @ ''setlimit'' @ [CHR 0x00] @ ''1'' @ [CHR 0x00] @ ''7'']\<rparr>)"
    using misc_ok [OF search_frame_7 i1] by simp
  have m2: "misc ''search'' 0 [''setlimit'' @ [CHR 0x00] @ ''1'' @ [CHR 0x00] @ ''7''] ?s2 =
      (Ret [], \<lparr>inbuf = [],
       sent = [[CHR 0xC8, CHR 0x90, CHR 0x00, CHR 0x00, CHR 0x00, CHR 0x06,
                CHR 0x00, CHR 0x00, CHR 0x00, CHR 0x00, CHR 0x00, CHR 0x00, CHR 0x00, CHR 0x01]
               @ ''search'' @ [CHR 0x00, CHR 0x00, CHR 0x00, CHR 0x0C]
               @ ''setlimit'' @ [CHR 0x00] @ ''1'' @ [CHR 0x00] @ ''7'']\<rparr>)"
    using misc_ok [OF search_frame_7 i2] by simp
  from getitem_index [OF q k, of "[[]]" ?s1] getitem_index [OF q k, of "[[]]" ?s2]
  show ?thesis
    unfolding s7 using m1 m2 by simp
qed

lemma getitem_search_slice:
  assumes "result_cache q = None \<or> result_cache q = Some []"
    and "index_ok (Slice start stop step)"
  shows "getitem h q (Slice start stop step) =
     then_io (misc ''search'' 0
                (h ! conditions q @
                 [setlimit (case stop of None \<Rightarrow> - 1
                            | Some b \<Rightarrow> b - (case start of None \<Rightarrow> 0 | Some a \<Rightarrow> a))
                    (case start of None \<Rightarrow> 0 | Some a \<Rightarrow> a)]))
       (\<lambda>resp. return_io (Lst (case step of
                                  None \<Rightarrow> resp
                                | Some st \<Rightarrow> if st = 0 then resp else py_step st resp)))"
proof -
  have oz: "or_zero start = (case start of None \<Rightarrow> 0 | Some a \<Rightarrow> a)"
    by (simp add: or_zero_def split: option.split)
  have lim: "(case stop of Some b \<Rightarrow> b - or_zero start | None \<Rightarrow> - 1) =
      (case stop of None \<Rightarrow> - 1 | Some b \<Rightarrow> b - (case start of None \<Rightarrow> 0 | Some a \<Rightarrow> a))"
    by (simp add: oz split: option.split)
  have stp: "(\<lambda>resp. case step of
                 None \<Rightarrow> return_io (Lst resp)
               | Some st \<Rightarrow>
                   if st = 0 then return_io (Lst resp)
                   else (case getslice resp None None (Some st) of
                           Inl e \<Rightarrow> raise_io e
                         | Inr ys \<Rightarrow> return_io (Lst (if ys \<noteq> [] then ys else resp)))) =
      (\<lambda>resp. return_io (Lst (case step of
                                  None \<Rightarrow> resp
                                | Some st \<Rightarrow> if st = 0 then resp else py_step st resp)))"
  proof (rule ext)
    fix resp :: "string list"
    show "(case step of
                 None \<Rightarrow> return_io (Lst resp)
               | Some st \<Rightarrow>
                   if st = 0 then return_io (Lst resp)
                   else (case getslice resp None None (Some st) of
                           Inl e \<Rightarrow> raise_io e
                         | Inr ys \<Rightarrow> return_io (Lst (if ys \<noteq> [] then ys else resp)))) =
      return_io (Lst (case step of
                                  None \<Rightarrow> resp
                                | Some st \<Rightarrow> if st = 0 then resp else py_step st resp))"
    proof (cases step)
      case None
      then show ?thesis by simp
    next
      case (Some st)
      show ?thesis
      proof (cases "st = 0")
        case True
        with Some show ?thesis by simp
      next
        case False
        from py_step_Nil_iff [OF False, of resp]
        have "(if py_step st resp \<noteq> [] then py_step st resp else resp) = py_step st resp"
          by auto
        with Some False show ?thesis by (simp add: getslice_step)
      qed
    qed
  qed
  have c: "\<not> (case result_cache q of None \<Rightarrow> False | Some xs \<Rightarrow> xs \<noteq> [])"
    using assms(1) by auto
  have "getitem h q (Slice start stop step) =
      (let limit = (case stop of Some b \<Rightarrow> b - or_zero start | None \<Rightarrow> - 1);
           condition = setlimit limit (or_zero start)
       in then_io (misc ''search'' 0 (h ! conditions q @ [condition]))
            (\<lambda>resp. case step of
                 None \<Rightarrow> return_io (Lst resp)
               | Some st \<Rightarrow>
                   if st = 0 then return_io (Lst resp)
                   else (case getslice resp None None (Some st) of
                           Inl e \<Rightarrow> raise_io e
                         | Inr ys \<Rightarrow> return_io (Lst (if ys \<noteq> [] then ys else resp)))))"
    using assms(2) c by (simp add: getitem_def)
  then show ?thesis
    unfolding Let_def stp lim oz .
qed

lemma search_frame_3_2:
  "t1FN C_misc ''search'' 0 [''setlimit'' @ [CHR 0x00] @ ''3'' @ [CHR 0x00] @ ''2''] =
     Inr [[CHR 0xC8, CHR 0x90, CHR 0x00, CHR 0x00, CHR 0x00, CHR 0x06,
           CHR 0x00, CHR 0x00, CHR 0x00, CHR 0x00, CHR 0x00, CHR 0x00, CHR 0x00, CHR 0x01],
          ''search'', [CHR 0x00, CHR 0x00, CHR 0x00, CHR 0x0C],
          ''setlimit'' @ [CHR 0x00] @ ''3'' @ [CHR 0x00] @ ''2'']"
  by (simp add: t1FN_def MAGIC_def C_misc_def len_def be_4 char_eval)

lemma search_frame_3_0:
  "t1FN C_misc ''search'' 0 [''setlimit'' @ [CHR 0x00] @ ''3'' @ [CHR 0x00] @ ''0''] =
     Inr [[CHR 0xC8, CHR 0x90, CHR 0x00, CHR 0x00, CHR 0x00, CHR 0x06,
           CHR 0x00, CHR 0x00, CHR 0x00, CHR 0x00, CHR 0x00, CHR 0x00, CHR 0x00, CHR 0x01],
          ''search'', [CHR 0x00, CHR 0x00, CHR 0x00, CHR 0x0C],
          ''setlimit'' @ [CHR 0x00] @ ''3'' @ [CHR 0x00] @ ''0'']"
  by (simp add: t1FN_def MAGIC_def C_misc_def len_def be_4 char_eval)

lemma str_int_small: "str_int 0 = ''0''" "str_int 2 = ''2''" "str_int 3 = ''3''"
  by (simp_all add: str_int_def digits.simps char_eval)

text \<open>
  Slices on the uncached path. For every Query with an unpopulated result cache and every
  slice with non-negative start and stop, whatever its step: indexing makes the call
  \<open>misc ''search'' 0\<close> on the query's conditions followed by the condition \<^verbatim>\<open>setlimit\<close>,
  limit, offset (joined by zero bytes), where the offset is the start (\<open>0\<close> when absent) and
  the limit is stop minus offset (\<open>-1\<close> when stop is absent); exactly one frame is sent, the
  frame of that call. With no step the response is returned as it is; with a nonzero step
  the result is \<open>py_step\<close> of the response, every \<open>|step|\<close>-th element from the front or
  from the back; with the step \<open>0\<close> the response is returned as it is.
\<close>

lemma getitem_slice:
  assumes "result_cache q = None"
    and "index_ok (Slice start stop step)"
  shows "getitem h q (Slice start stop step) s =
     (case misc ''search'' 0
             (h ! conditions q @
              [''setlimit'' @ [CHR 0x00]
               @ str_int (case stop of None \<Rightarrow> - 1
                          | Some b \<Rightarrow> b - (case start of None \<Rightarrow> 0 | Some a \<Rightarrow> a))
               @ [CHR 0x00] @ str_int (case start of None \<Rightarrow> 0 | Some a \<Rightarrow> a)]) s of
        (Ret resp, s') \<Rightarrow>
          (Ret (Lst (case step of
                       None \<Rightarrow> resp
                     | Some st \<Rightarrow> if st = 0 then resp else py_step st resp)), s')
      | (Raise e, s') \<Rightarrow> (Raise e, s')
      | (Diverge, s') \<Rightarrow> (Diverge, s'))
   \<and> sent (snd (getitem h q (Slice start stop step) s)) =
     (case t1FN C_misc ''search'' 0
             (h ! conditions q @
              [''setlimit'' @ [CHR 0x00]
               @ str_int (case stop of None \<Rightarrow> - 1
                          | Some b \<Rightarrow> b - (case start of None \<Rightarrow> 0 | Some a \<Rightarrow> a))
               @ [CHR 0x00] @ str_int (case start of None \<Rightarrow> 0 | Some a \<Rightarrow> a)]) of
        Inl e \<Rightarrow> sent s
      | Inr l \<Rightarrow> sent s @ [concat l])"
proof -
  from assms(1) have "result_cache q = None \<or> result_cache q = Some []" by simp
  note g = getitem_search_slice [OF this assms(2), of h]
  have 1: "getitem h q (Slice start stop step) s =
     (case misc ''search'' 0
             (h ! conditions q @
              [''setlimit'' @ [CHR 0x00]
               @ str_int (case stop of None \<Rightarrow> - 1
                          | Some b \<Rightarrow> b - (case start of None \<Rightarrow> 0 | Some a \<Rightarrow> a))
               @ [CHR 0x00] @ str_int (case start of None \<Rightarrow> 0 | Some a \<Rightarrow> a)]) s of
        (Ret resp, s') \<Rightarrow>
          (Ret (Lst (case step of
                       None \<Rightarrow> resp
                     | Some st \<Rightarrow> if st = 0 then resp else py_step st resp)), s')
      | (Raise e, s') \<Rightarrow> (Raise e, s')
      | (Diverge, s') \<Rightarrow> (Diverge, s'))"
    unfolding g setlimit_eq then_io_return_case ..
  have 2: "sent (snd (getitem h q (Slice start stop step) s)) =
     (case t1FN C_misc ''search'' 0
             (h ! conditions q @
              [''setlimit'' @ [CHR 0x00]
               @ str_int (case stop of None \<Rightarrow> - 1
                          | Some b \<Rightarrow> b - (case start of None \<Rightarrow> 0 | Some a \<Rightarrow> a))
               @ [CHR 0x00] @ str_int (case start of None \<Rightarrow> 0 | Some a \<Rightarrow> a)]) of
        Inl e \<Rightarrow> sent s
      | Inr l \<Rightarrow> sent s @ [concat l])"
    unfolding g setlimit_eq then_io_return_sent misc_sent_eq ..
  from 1 2 show ?thesis ..
qed

text \<open>
  The example of the claim: \<^verbatim>\<open>query[2:5:2]\<close> searches with limit \<open>3\<close> and offset \<open>2\<close> and
  keeps the positions \<open>0\<close> and \<open>2\<close> of the three results.
\<close>

lemma getitem_slice_example:
  "getitem [[]] \<lparr>ptt = 0, conditions = 0, result_cache = None\<rparr>
     (Slice (Some 2) (Some 5) (Some 2))
     \<lparr>inbuf = [CHR 0x00, CHR 0x00, CHR 0x00, CHR 0x00, CHR 0x03,
               CHR 0x00, CHR 0x00, CHR 0x00, CHR 0x02, CHR ''k'', CHR ''2'',
               CHR 0x00, CHR 0x00, CHR 0x00, CHR 0x02, CHR ''k'', CHR ''3'',
               CHR 0x00, CHR 0x00, CHR 0x00, CHR 0x02, CHR ''k'', CHR ''4''], sent = []\<rparr>
   = (Ret (Lst [''k2'', ''k4'']),
      \<lparr>inbuf = [],
       sent = [[CHR 0xC8, CHR 0x90, CHR 0x00, CHR 0x00, CHR 0x00, CHR 0x06,
                CHR 0x00, CHR 0x00, CHR 0x00, CHR 0x00, CHR 0x00, CHR 0x00, CHR 0x00, CHR 0x01]
               @ ''search'' @ [CHR 0x00, CHR 0x00, CHR 0x00, CHR 0x0C]
               @ ''setlimit'' @ [CHR 0x00] @ ''3'' @ [CHR 0x00] @ ''2'']\<rparr>)"
proof -
  let ?q = "\<lparr>ptt = 0, conditions = 0, result_cache = None\<rparr>"
  let ?s = "\<lparr>inbuf = [CHR 0x00, CHR 0x00, CHR 0x00, CHR 0x00, CHR 0x03,
               CHR 0x00, CHR 0x00, CHR 0x00, CHR 0x02, CHR ''k'', CHR ''2'',
               CHR 0x00, CHR 0x00, CHR 0x00, CHR 0x02, CHR ''k'', CHR ''3'',
               CHR 0x00, CHR 0x00, CHR 0x00, CHR 0x02, CHR ''k'', CHR ''4''], sent = []\<rparr>"
  let ?rs = "[''k2'', ''k3'', ''k4'']"
  have q: "result_cache ?q = None" by simp
  have ok: "index_ok (Slice (Some 2) (Some 5) (Some 2))" by simp
  have i: "inbuf ?s = CHR 0x00 # be 4 (length ?rs) @ concat (map wire_str ?rs) @ []"
    by (simp add: be4_small)
  have m: "misc ''search'' 0 [''setlimit'' @ [CHR 0x00] @ ''3'' @ [CHR 0x00] @ ''2''] ?s =
      (Ret ?rs, \<lparr>inbuf = [],
       sent = [[CHR 0xC8, CHR 0x90, CHR 0x00, CHR 0x00, CHR 0x00, CHR 0x06,
                CHR 0x00, CHR 0x00, CHR 0x00, CHR 0x00, CHR 0x00, CHR 0x00, CHR 0x00, CHR 0x01]
               @ ''search'' @ [CHR 0x00, CHR 0x00, CHR 0x00, CHR 0x0C]
               @ ''setlimit'' @ [CHR 0x00] @ ''3'' @ [CHR 0x00] @ ''2'']\<rparr>)"
    using misc_ok [OF search_frame_3_2 i] by simp
  have p: "py_step 2 ?rs = [''k2'', ''k4'']" by code_simp
  from getitem_slice [OF q ok, of "[[]]" ?s]
  show ?thesis
    using m p by (simp add: str_int_small)
qed

text \<open>
  Claim C5. The claim has a given step applied to the list the search returns. For the step
  \<open>0\<close> the code does not apply it: \<^verbatim>\<open>query[0:3:0]\<close> on a Query with an unpopulated cache
  makes the one bounded search (limit \<open>3\<close>, offset \<open>0\<close>) and returns its three results
  unchanged, whereas Python's \<^verbatim>\<open>[::0]\<close> on that list raises \<open>ValueError\<close>, and so does the
  same index on a Query whose cache holds these three results.
\<close>

theorem getitem_slice_step_zero:
  "getitem [[]] \<lparr>ptt = 0, conditions = 0, result_cache = None\<rparr>
     (Slice (Some 0) (Some 3) (Some 0))
     \<lparr>inbuf = [CHR 0x00, CHR 0x00, CHR 0x00, CHR 0x00, CHR 0x03,
               CHR 0x00, CHR 0x00, CHR 0x00, CHR 0x02, CHR ''k'', CHR ''0'',
               CHR 0x00, CHR 0x00, CHR 0x00, CHR 0x02, CHR ''k'', CHR ''1'',
               CHR 0x00, CHR 0x00, CHR 0x00, CHR 0x02, CHR ''k'', CHR ''2''], sent = []\<rparr>
   = (Ret (Lst [''k0'', ''k1'', ''k2'']),
      \<lparr>inbuf = [],
       sent = [[CHR 0xC8, CHR 0x90, CHR 0x00, CHR 0x00, CHR 0x00, CHR 0x06,
                CHR 0x00, CHR 0x00, CHR 0x00, CHR 0x00, CHR 0x00, CHR 0x00, CHR 0x00, CHR 0x01]
               @ ''search'' @ [CHR 0x00, CHR 0x00, CHR 0x00, CHR 0x0C]
               @ ''setlimit'' @ [CHR 0x00] @ ''3'' @ [CHR 0x00] @ ''0'']\<rparr>)
   \<and> getslice [''k0'', ''k1'', ''k2''] None None (Some 0) = Inl ValueError
   \<and> getitem [[]] \<lparr>ptt = 0, conditions = 0, result_cache = Some [''k0'', ''k1'', ''k2'']\<rparr>
       (Slice (Some 0) (Some 3) (Some 0)) \<lparr>inbuf = [], sent = []\<rparr>
     = (Raise ValueError, \<lparr>inbuf = [], sent = []\<rparr>)"
proof -
  let ?q = "\<lparr>ptt = 0, conditions = 0, result_cache = None\<rparr>"
  let ?s = "\<lparr>inbuf = [CHR 0x00, CHR 0x00, CHR 0x00, CHR 0x00, CHR 0x03,
               CHR 0x00, CHR 0x00, CHR 0x00, CHR 0x02, CHR ''k'', CHR ''0'',
               CHR 0x00, CHR 0x00, CHR 0x00, CHR 0x02, CHR ''k'', CHR ''1'',
               CHR 0x00, CHR 0x00, CHR 0x00, CHR 0x02, CHR ''k'', CHR ''2''], sent = []\<rparr>"
  let ?rs = "[''k0'', ''k1'', ''k2'']"
  have q: "result_cache ?q = None \<or> result_cache ?q = Some []" by simp
  have ok: "index_ok (Slice (Some 0) (Some 3) (Some 0))" by simp
  have i: "inbuf ?s = CHR 0x00 # be 4 (length ?rs) @ concat (map wire_str ?rs) @ []"
    by (simp add: be4_small)
  have m: "misc ''search'' 0 [''setlimit'' @ [CHR 0x00] @ ''3'' @ [CHR 0x00] @ ''0''] ?s =
      (Ret ?rs, \<lparr>inbuf = [],
       sent = [[CHR 0xC8, CHR 0x90, CHR 0x00, CHR 0x00, CHR 0x00, CHR 0x06,
                CHR 0x00, CHR 0x00, CHR 0x00, CHR 0x00, CHR 0x00, CHR 0x00, CHR 0x00, CHR 0x01]
               @ ''search'' @ [CHR 0x00, CHR 0x00, CHR 0x00, CHR 0x0C]
               @ ''setlimit'' @ [CHR 0x00] @ ''3'' @ [CHR 0x00] @ ''0'']\<rparr>)"
    using misc_ok [OF search_frame_3_0 i] by simp
  have 1: "getitem [[]] ?q (Slice (Some 0) (Some 3) (Some 0)) ?s =
      (Ret (Lst ?rs), \<lparr>inbuf = [],
       sent = [[CHR 0xC8, CHR 0x90, CHR 0x00, CHR 0x00, CHR 0x00, CHR 0x06,
                CHR 0x00, CHR 0x00, CHR 0x00, CHR 0x00, CHR 0x00, CHR 0x00, CHR 0x00, CHR 0x01]
               @ ''search'' @ [CHR 0x00, CHR 0x00, CHR 0x00, CHR 0x0C]
               @ ''setlimit'' @ [CHR 0x00] @ ''3'' @ [CHR 0x00] @ ''0'']\<rparr>)"
    unfolding getitem_search_slice [OF q ok] then_io_return_case setlimit_eq
    using m by (simp add: str_int_small)
  have 2: "getslice ?rs None None (Some 0) = Inl ValueError"
    by (simp add: getslice_def)
  have 3: "getitem [[]] \<lparr>ptt = 0, conditions = 0, result_cache = Some ?rs\<rparr>
       (Slice (Some 0) (Some 3) (Some 0)) \<lparr>inbuf = [], sent = []\<rparr>
     = (Raise ValueError, \<lparr>inbuf = [], sent = []\<rparr>)"
    by (simp add: getitem_def getslice_def raise_io_def)
  show ?thesis
    by (intro conjI) (rule 1, rule 2, rule 3)
qed

subsection \<open>Indexing a Query with a populated cache\<close>

lemma getitem_cache_hit:
  assumes "result_cache q = Some xs" and "xs \<noteq> []" and "k \<noteq> Other" and "index_ok k"
  shows "getitem h q k s =
     (case cache_getitem xs k of
        Inr v \<Rightarrow> (Ret v, s)
      | Inl e \<Rightarrow>
          if e = IndexError then
            (case k of Slice _ _ _ \<Rightarrow> (Raise e, s) | _ \<Rightarrow> (Ret PyNone, s))
          else (Raise e, s))"
  using assms
  by (simp add: getitem_def return_io_def raise_io_def split: sum.split index.split)

lemma getitem_cached_sock:
  assumes "result_cache q = Some xs" and "xs \<noteq> []"
  shows "snd (getitem h q k s) = s"
proof (cases "k = Other")
  case True
  then show ?thesis by (simp add: getitem_Other)
next
  case False
  show ?thesis
  proof (cases "index_ok k")
    case True
    show ?thesis
      unfolding getitem_cache_hit [OF assms False True]
      by (simp split: sum.split index.split)
  next
    case no: False
    then show ?thesis by (simp add: getitem_invalid [OF False])
  qed
qed

lemma getitem_empty_cache:
  assumes "result_cache q = Some []"
  shows "getitem h q k s = getitem h (q\<lparr>result_cache := None\<rparr>) k s"
  using assms by (cases k) (simp_all add: getitem_def)

lemma get_results_populates:
  assumes "result_cache q = None" and "get_results h q s = ((Ret r, q'), s')"
  shows "result_cache q' = Some r \<and> misc ''search'' 0 (h ! conditions q) s = (Ret r, s')"
  using assms by (auto simp: get_results_def split: prod.splits res.splits)

text \<open>
  Claim C10. For every Query whose result cache holds a non-empty list, indexing and slicing
  leave the connection as it was (no search is made): an index inside the list returns its
  element, an index past the end returns \<open>PyNone\<close>, a slice returns the Python slice of the
  cached list. When the cache holds the empty list, indexing behaves exactly as with no
  cache: an index or a slice sends the frame of a bounded search.
\<close>

theorem getitem_cached:
  "(result_cache q = Some xs \<and> xs \<noteq> [] \<longrightarrow>
      snd (getitem h q k s) = s
      \<and> (0 \<le> i \<and> i < int (length xs) \<longrightarrow> getitem h q (Index i) s = (Ret (Str (xs ! nat i)), s))
      \<and> (int (length xs) \<le> i \<longrightarrow> getitem h q (Index i) s = (Ret PyNone, s))
      \<and> (index_ok (Slice start stop step) \<longrightarrow>
            getitem h q (Slice start stop step) s =
              (case getslice xs start stop step of
                 Inl e \<Rightarrow> (Raise e, s)
               | Inr ys \<Rightarrow> (Ret (Lst ys), s))))
   \<and> (result_cache q = Some [] \<longrightarrow>
      getitem h q k s = getitem h (q\<lparr>result_cache := None\<rparr>) k s
      \<and> (0 \<le> i \<longrightarrow>
            sent (snd (getitem h q (Index i) s)) =
              (case t1FN C_misc ''search'' 0 (h ! conditions q @ [setlimit 1 i]) of
                 Inl e \<Rightarrow> sent s
               | Inr l \<Rightarrow> sent s @ [concat l]))
      \<and> (index_ok (Slice start stop step) \<longrightarrow>
            sent (snd (getitem h q (Slice start stop step) s)) =
              (case t1FN C_misc ''search'' 0
                      (h ! conditions q @
                       [setlimit (case stop of None \<Rightarrow> - 1
                                  | Some b \<Rightarrow> b - (case start of None \<Rightarrow> 0 | Some a \<Rightarrow> a))
                          (case start of None \<Rightarrow> 0 | Some a \<Rightarrow> a)]) of
                 Inl e \<Rightarrow> sent s
               | Inr l \<Rightarrow> sent s @ [concat l])))"
proof -
  have A: "snd (getitem h q k s) = s
      \<and> (0 \<le> i \<and> i < int (length xs) \<longrightarrow> getitem h q (Index i) s = (Ret (Str (xs ! nat i)), s))
      \<and> (int (length xs) \<le> i \<longrightarrow> getitem h q (Index i) s = (Ret PyNone, s))
      \<and> (index_ok (Slice start stop step) \<longrightarrow>
            getitem h q (Slice start stop step) s =
              (case getslice xs start stop step of
                 Inl e \<Rightarrow> (Raise e, s)
               | Inr ys \<Rightarrow> (Ret (Lst ys), s)))"
    if c: "result_cache q = Some xs" "xs \<noteq> []"
  proof -
    have 1: "snd (getitem h q k s) = s"
      by (rule getitem_cached_sock [OF c])
    have 2: "0 \<le> i \<and> i < int (length xs) \<longrightarrow> getitem h q (Index i) s = (Ret (Str (xs ! nat i)), s)"
      by (simp add: getitem_cache_hit [OF c] list_index_def len_def)
    have 3: "int (length xs) \<le> i \<longrightarrow> getitem h q (Index i) s = (Ret PyNone, s)"
      by (simp add: getitem_cache_hit [OF c] list_index_def len_def)
    have 4: "index_ok (Slice start stop step) \<longrightarrow>
            getitem h q (Slice start stop step) s =
              (case getslice xs start stop step of
                 Inl e \<Rightarrow> (Raise e, s)
               | Inr ys \<Rightarrow> (Ret (Lst ys), s))"
    proof
      assume ok: "index_ok (Slice start stop step)"
      have "getslice xs start stop step \<noteq> Inl IndexError"
        by (simp add: getslice_def Let_def)
      then show "getitem h q (Slice start stop step) s =
              (case getslice xs start stop step of
                 Inl e \<Rightarrow> (Raise e, s)
               | Inr ys \<Rightarrow> (Ret (Lst ys), s))"
        unfolding getitem_cache_hit [OF c index.distinct(5) ok]
        by (auto split: sum.split)
    qed
    from 1 2 3 4 show ?thesis by blast
  qed
  have B: "getitem h q k s = getitem h (q\<lparr>result_cache := None\<rparr>) k s
      \<and> (0 \<le> i \<longrightarrow>
            sent (snd (getitem h q (Index i) s)) =
              (case t1FN C_misc ''search'' 0 (h ! conditions q @ [setlimit 1 i]) of
                 Inl e \<Rightarrow> sent s
               | Inr l \<Rightarrow> sent s @ [concat l]))
      \<and> (index_ok (Slice start stop step) \<longrightarrow>
            sent (snd (getitem h q (Slice start stop step) s)) =
              (case t1FN C_misc ''search'' 0
                      (h ! conditions q @
                       [setlimit (case stop of None \<Rightarrow> - 1
                                  | Some b \<Rightarrow> b - (case start of None \<Rightarrow> 0 | Some a \<Rightarrow> a))
                          (case start of None \<Rightarrow> 0 | Some a \<Rightarrow> a)]) of
                 Inl e \<Rightarrow> sent s
               | Inr l \<Rightarrow> sent s @ [concat l]))"
    if c: "result_cache q = Some []"
  proof -
    from c have c': "result_cache q = None \<or> result_cache q = Some []" by simp
    have 1: "getitem h q k s = getitem h (q\<lparr>result_cache := None\<rparr>) k s"
      by (rule getitem_empty_cache [OF c])
    have 2: "0 \<le> i \<longrightarrow>
            sent (snd (getitem h q (Index i) s)) =
              (case t1FN C_misc ''search'' 0 (h ! conditions q @ [setlimit 1 i]) of
                 Inl e \<Rightarrow> sent s
               | Inr l \<Rightarrow> sent s @ [concat l])"
      by (simp add: getitem_search_index [OF c'] then_io_return_sent misc_sent_eq)
    have 3: "index_ok (Slice start stop step) \<longrightarrow>
            sent (snd (getitem h q (Slice start stop step) s)) =
              (case t1FN C_misc ''search'' 0
                      (h ! conditions q @
                       [setlimit (case stop of None \<Rightarrow> - 1
                                  | Some b \<Rightarrow> b - (case start of None \<Rightarrow> 0 | Some a \<Rightarrow> a))
                          (case start of None \<Rightarrow> 0 | Some a \<Rightarrow> a)]) of
                 Inl e \<Rightarrow> sent s
               | Inr l \<Rightarrow> sent s @ [concat l])"
    proof
      assume ok: "index_ok (Slice start stop step)"
      show "sent (snd (getitem h q (Slice start stop step) s)) =
              (case t1FN C_misc ''search'' 0
                      (h ! conditions q @
                       [setlimit (case stop of None \<Rightarrow> - 1
                                  | Some b \<Rightarrow> b - (case start of None \<Rightarrow> 0 | Some a \<Rightarrow> a))
                          (case start of None \<Rightarrow> 0 | Some a \<Rightarrow> a)]) of
                 Inl e \<Rightarrow> sent s
               | Inr l \<Rightarrow> sent s @ [concat l])"
        unfolding getitem_search_slice [OF c' ok] then_io_return_sent misc_sent_eq ..
    qed
    from 1 2 3 show ?thesis by blast
  qed
  from A B show ?thesis by blast
qed

theorem getitem_cached_witness:
  "getitem [[]] \<lparr>ptt = 0, conditions = 0, result_cache = Some [''k0'', ''k1'', ''k2'']\<rparr>
     (Index 1) \<lparr>inbuf = [], sent = []\<rparr> = (Ret (Str ''k1''), \<lparr>inbuf = [], sent = []\<rparr>)
   \<and> getitem [[]] \<lparr>ptt = 0, conditions = 0, result_cache = Some [''k0'', ''k1'', ''k2'']\<rparr>
     (Index 5) \<lparr>inbuf = [], sent = []\<rparr> = (Ret PyNone, \<lparr>inbuf = [], sent = []\<rparr>)
   \<and> getitem [[]] \<lparr>ptt = 0, conditions = 0, result_cache = Some [''k0'', ''k1'', ''k2'']\<rparr>
     (Slice (Some 1) None None) \<lparr>inbuf = [], sent = []\<rparr> =
       (Ret (Lst [''k1'', ''k2'']), \<lparr>inbuf = [], sent = []\<rparr>)
   \<and> getitem [[]] \<lparr>ptt = 0, conditions = 0, result_cache = Some []\<rparr> (Index 7)
     \<lparr>inbuf = [CHR 0x00, CHR 0x00, CHR 0x00, CHR 0x00, CHR 0x01,
               CHR 0x00, CHR 0x00, CHR 0x00, CHR 0x04] @ ''key7'', sent = []\<rparr>
   = (Ret (Str ''key7''),
      \<lparr>inbuf = [],
       sent = [[CHR 0xC8, CHR 0x90, CHR 0x00, CHR 0x00, CHR 0x00, CHR 0x06,
                CHR 0x00, CHR 0x00, CHR 0x00, CHR 0x00, CHR 0x00, CHR 0x00, CHR 0x00, CHR 0x01]
               @ ''search'' @ [CHR 0x00, CHR 0x00, CHR 0x00, CHR 0x0C]
               @ ''setlimit'' @ [CHR 0x00] @ ''1'' @ [CHR 0x00] @ ''7'']\<rparr>)"
proof -
  let ?h = "[[]] :: heap"
  let ?q = "\<lparr>ptt = 0, conditions = 0, result_cache = Some [''k0'', ''k1'', ''k2'']\<rparr>"
  let ?e = "\<lparr>ptt = 0, conditions = 0, result_cache = Some []\<rparr>"
  let ?s0 = "\<lparr>inbuf = [], sent = []\<rparr>"
  let ?s1 = "\<lparr>inbuf = [CHR 0x00, CHR 0x00, CHR 0x00, CHR 0x00, CHR 0x01,
               CHR 0x00, CHR 0x00, CHR 0x00, CHR 0x04] @ ''key7'', sent = []\<rparr>"
  have c: "result_cache ?q = Some [''k0'', ''k1'', ''k2''] \<and> [''k0'', ''k1'', ''k2''] \<noteq> []"
    by simp
  have 1: "getitem ?h ?q (Index 1) ?s0 = (Ret (Str ''k1''), ?s0)"
    using getitem_cached [where q = ?q and xs = "[''k0'', ''k1'', ''k2'']" and i = 1
        and h = ?h and s = ?s0] c
    by simp
  have 2: "getitem ?h ?q (Index 5) ?s0 = (Ret PyNone, ?s0)"
    using getitem_cached [where q = ?q and xs = "[''k0'', ''k1'', ''k2'']" and i = 5
        and h = ?h and s = ?s0] c
    by simp
  have g: "getslice [''k0'', ''k1'', ''k2''] (Some 1) None None = Inr [''k1'', ''k2'']"
    by code_simp
  have 3: "getitem ?h ?q (Slice (Some 1) None None) ?s0 = (Ret (Lst [''k1'', ''k2'']), ?s0)"
    using getitem_cached [where q = ?q and xs = "[''k0'', ''k1'', ''k2'']"
        and start = "Some 1" and stop = None and step = None and h = ?h and s = ?s0] c g
    by simp
  have e: "getitem ?h ?e (Index 7) ?s1 = getitem ?h (?e\<lparr>result_cache := None\<rparr>) (Index 7) ?s1"
    using getitem_cached [where q = ?e and k = "Index 7" and h = ?h and s = ?s1]
    by simp
  have s7: "str_int 7 = ''7''"
    by (simp add: str_int_def digits.simps char_eval)
  have i1: "inbuf ?s1 = CHR 0x00 # be 4 (length [''key7'']) @ concat (map wire_str [''key7'']) @ []"
    by (simp add: be4_small)
  have m1: "misc ''search'' 0 [''setlimit'' @ [CHR 0x00] @ ''1'' @ [CHR 0x00] @ ''7''] ?s1 =
      (Ret [''key7''], \<lparr>inbuf = [],
       sent = [[CHR 0xC8, CHR 0x90, CHR 0x00, CHR 0x00, CHR 0x00, CHR 0x06,
                CHR 0x00, CHR 0x00, CHR 0x00, CHR 0x00, CHR 0x00, CHR 0x00, CHR 0x00, CHR 0x01]
               @ ''search'' @ [CHR 0x00, CHR 0x00, CHR 0x00, CHR 0x0C]
               @ ''setlimit'' @ [CHR 0x00] @ ''1'' @ [CHR 0x00] @ ''7'']\<rparr>)"
    using misc_ok [OF search_frame_7 i1] by simp
  have n: "result_cache (?e\<lparr>result_cache := None\<rparr>) = None
      \<or> result_cache (?e\<lparr>result_cache := None\<rparr>) = Some []"
    by simp
  have k: "(0::int) \<le> 7" by simp
  have 4: "getitem ?h ?e (Index 7) ?s1 =
      (Ret (Str ''key7''), \<lparr>inbuf = [],
       sent = [[CHR 0xC8, CHR 0x90, CHR 0x00, CHR 0x00, CHR 0x00, CHR 0x06,
                CHR 0x00, CHR 0x00, CHR 0x00, CHR 0x00, CHR 0x00, CHR 0x00, CHR 0x00, CHR 0x01]
               @ ''search'' @ [CHR 0x00, CHR 0x00, CHR 0x00, CHR 0x0C]
               @ ''setlimit'' @ [CHR 0x00] @ ''1'' @ [CHR 0x00] @ ''7'']\<rparr>)"
    unfolding e getitem_search_index [OF n k] then_io_return_case setlimit_eq str_int_1 s7
    using m1 by simp
  from 1 2 3 4 show ?thesis by blast
qed

subsection \<open>Iterating over the keys\<close>

lemma t0_iterinit: "t0 C_iterinit = Inr [[CHR 0xC8, CHR 0x50]]"
  by (simp add: t0_def C_iterinit_def MAGIC_def char_eval)

lemma t0_iternext: "t0 C_iternext = Inr [[CHR 0xC8, CHR 0x51]]"
  by (simp add: t0_def C_iternext_def MAGIC_def char_eval)

lemma iterinit_ok:
  assumes "inbuf s = c # rest" and "of_char c = (0::nat)"
  shows "iterinit s = (Ret (), s\<lparr>sent := sent s @ [[CHR 0xC8, CHR 0x50]], inbuf := rest\<rparr>)"
proof -
  let ?s1 = "s\<lparr>sent := sent s @ [[CHR 0xC8, CHR 0x50]]\<rparr>"
  have "inbuf ?s1 = c # rest" using assms(1) by simp
  from socksuccess_ok [OF this assms(2)]
  show ?thesis
    by (simp add: iterinit_def t0_iterinit seq_io_def then_io_def socksend_Inr)
qed

lemma iternext_ok:
  assumes "inbuf s = c # be 4 (length k) @ k @ rest" and "of_char c = (0::nat)"
    and "length k < 2 ^ 32"
  shows "iternext s = (Ret k, s\<lparr>sent := sent s @ [[CHR 0xC8, CHR 0x51]], inbuf := rest\<rparr>)"
proof -
  let ?s1 = "s\<lparr>sent := sent s @ [[CHR 0xC8, CHR 0x51]]\<rparr>"
  let ?s2 = "?s1\<lparr>inbuf := be 4 (length k) @ k @ rest\<rparr>"
  have "inbuf ?s1 = c # be 4 (length k) @ k @ rest" using assms(1) by simp
  from socksuccess_ok [OF this assms(2)]
  have a: "socksuccess ?s1 = (Ret (), ?s2)" .
  have "inbuf ?s2 = be 4 (length k) @ k @ rest" by simp
  from sockstr_be [OF this assms(3)]
  have b: "sockstr ?s2 = (Ret k, ?s2\<lparr>inbuf := rest\<rparr>)" .
  show ?thesis
    using a b by (simp add: iternext_def t0_iternext seq_io_def then_io_def socksend_Inr)
qed

lemma iternext_fail:
  assumes "inbuf s = c # rest" and "of_char c \<noteq> (0::nat)"
  shows "iternext s =
    (Raise (TyrantError (of_char c)), s\<lparr>sent := sent s @ [[CHR 0xC8, CHR 0x51]], inbuf := rest\<rparr>)"
  using request_fails(1) [OF assms, of "t0 C_iternext" sockstr] assms(1)
  by (simp add: iternext_def t0_iternext fails_on_status_def)

lemma iterkeys_loop_stream:
  assumes "\<forall>k \<in> set ks. length k < 2 ^ 32" and "of_char c \<noteq> (0::nat)"
    and "inbuf s = concat (map (\<lambda>k. CHR 0x00 # be 4 (length k) @ k) ks) @ c # rest"
  shows "iterkeys_loop s =
    ((ks, Ret ()),
     s\<lparr>sent := sent s @ replicate (Suc (length ks)) [CHR 0xC8, CHR 0x51], inbuf := rest\<rparr>)"
  using assms
proof (induction ks arbitrary: s)
  case Nil
  then have "inbuf s = c # rest" by simp
  from iternext_fail [OF this Nil.prems(2)] show ?case
    by (subst iterkeys_loop.simps) simp
next
  case (Cons k ks)
  let ?tail = "concat (map (\<lambda>k. CHR 0x00 # be 4 (length k) @ k) ks) @ c # rest"
  let ?s1 = "s\<lparr>sent := sent s @ [[CHR 0xC8, CHR 0x51]], inbuf := ?tail\<rparr>"
  from Cons.prems have i: "inbuf s = CHR 0x00 # be 4 (length k) @ k @ ?tail" by simp
  have z: "of_char (CHR 0x00) = (0::nat)" by simp
  from Cons.prems have "length k < 2 ^ 32" by simp
  from iternext_ok [OF i z this] have n: "iternext s = (Ret k, ?s1)" .
  have "iterkeys_loop ?s1 =
    ((ks, Ret ()),
     ?s1\<lparr>sent := sent ?s1 @ replicate (Suc (length ks)) [CHR 0xC8, CHR 0x51], inbuf := rest\<rparr>)"
    by (rule Cons.IH) (use Cons.prems in simp_all)
  then show ?case
    using n by (subst iterkeys_loop.simps) (simp add: replicate_append_same)
qed

text \<open>
  Claim C8. Let the server answer \<open>iterinit\<close> with status \<open>0\<close>, then \<open>N\<close> calls of
  \<open>iternext\<close> with status \<open>0\<close> and a key each, then one more with a nonzero status (the
  exhaustion error). Then \<open>iterkeys\<close> yields exactly these \<open>N\<close> keys, in order, and ends
  normally: the error does not reach the caller. It has sent one \<open>iterinit\<close> frame followed
  by \<open>N + 1\<close> \<open>iternext\<close> frames and has read the responses to them and nothing more.
\<close>

theorem iterkeys_exhaustion:
  assumes "\<forall>k \<in> set ks. length k < 2 ^ 32" and "of_char c \<noteq> (0::nat)"
    and "inbuf s =
      CHR 0x00 # concat (map (\<lambda>k. CHR 0x00 # be 4 (length k) @ k) ks) @ c # rest"
  shows "iterkeys s =
    ((ks, Ret ()),
     s\<lparr>sent := sent s @ [CHR 0xC8, CHR 0x50] # replicate (Suc (length ks)) [CHR 0xC8, CHR 0x51],
       inbuf := rest\<rparr>)"
proof -
  let ?tail = "concat (map (\<lambda>k. CHR 0x00 # be 4 (length k) @ k) ks) @ c # rest"
  let ?s1 = "s\<lparr>sent := sent s @ [[CHR 0xC8, CHR 0x50]], inbuf := ?tail\<rparr>"
  have z: "of_char (CHR 0x00) = (0::nat)" by simp
  from iterinit_ok [OF assms(3) z] have a: "iterinit s = (Ret (), ?s1)" .
  have "inbuf ?s1 = ?tail" by simp
  from iterkeys_loop_stream [OF assms(1,2) this]
  have "iterkeys_loop ?s1 =
    ((ks, Ret ()),
     ?s1\<lparr>sent := sent ?s1 @ replicate (Suc (length ks)) [CHR 0xC8, CHR 0x51], inbuf := rest\<rparr>)" .
  with a show ?thesis by (simp add: iterkeys_def)
qed

theorem iterkeys_exhaustion_witness:
  "iterkeys \<lparr>inbuf = [CHR 0x00,
                      CHR 0x00, CHR 0x00, CHR 0x00, CHR 0x00, CHR 0x01, CHR ''a'',
                      CHR 0x00, CHR 0x00, CHR 0x00, CHR 0x00, CHR 0x02, CHR ''b'', CHR ''c'',
                      CHR 0x01], sent = []\<rparr>
   = (([''a'', ''bc''], Ret ()),
      \<lparr>inbuf = [],
       sent = [[CHR 0xC8, CHR 0x50], [CHR 0xC8, CHR 0x51], [CHR 0xC8, CHR 0x51],
               [CHR 0xC8, CHR 0x51]]\<rparr>)"
proof -
  let ?s = "\<lparr>inbuf = [CHR 0x00,
                      CHR 0x00, CHR 0x00, CHR 0x00, CHR 0x00, CHR 0x01, CHR ''a'',
                      CHR 0x00, CHR 0x00, CHR 0x00, CHR 0x00, CHR 0x02, CHR ''b'', CHR ''c'',
                      CHR 0x01], sent = []\<rparr>"
  have a: "\<forall>k \<in> set [''a'', ''bc'']. length k < 2 ^ 32" by simp
  have b: "of_char (CHR 0x01) \<noteq> (0::nat)" by simp
  have c: "inbuf ?s =
      CHR 0x00 # concat (map (\<lambda>k. CHR 0x00 # be 4 (length k) @ k) [''a'', ''bc'']) @ CHR 0x01 # []"
    by (simp add: be4_small)
  from iterkeys_exhaustion [OF a b c] show ?thesis by simp
qed

subsection \<open>Deriving a Query\<close>

lemma clone_eq:
  assumes "conditions q < length h"
  shows "clone q h =
    (\<lparr>ptt = ptt q, conditions = Suc (length h), result_cache = None\<rparr>,
     h @ [[], h ! conditions q])"
  using assms by (simp add: clone_def Query_init_def new_list_def nth_append)

lemma list_append_last:
  "list_append (Suc (length h)) x (h @ [a, cs]) = h @ [a, cs @ [x]]"
  by (simp add: list_append_def list_update_append nth_append)

lemma derivedI:
  assumes "conditions q < length h"
  shows "derived q h \<lparr>ptt = ptt q, conditions = Suc (length h), result_cache = None\<rparr>
           (h @ [a, h ! conditions q @ cs]) cs"
  using assms
  by (simp add: derived_def nth_append list_append_def)

lemma filter_loop_step:
  "filter_loop r (kv # query) h =
     (case filter_condition kv of
        Inl e \<Rightarrow> (Inl e, h)
      | Inr c \<Rightarrow> filter_loop r query (list_append r c h))"
  by (cases kv)
     (simp add: filter_condition_def Let_def split: option.split fval.split)

lemma filter_loop_exact:
  "filter_loop (Suc (length h)) query (h @ [a, cs]) = (Inr u, h') \<Longrightarrow>
     \<exists>ds. map filter_condition query = map Inr ds \<and> h' = h @ [a, cs @ ds]"
proof (induction query arbitrary: cs)
  case Nil
  then show ?case by simp
next
  case (Cons kv query)
  from Cons.prems obtain c where c: "filter_condition kv = Inr c"
    and step: "filter_loop (Suc (length h)) query (h @ [a, cs @ [c]]) = (Inr u, h')"
    by (auto simp: filter_loop_step list_append_last split: sum.splits)
  from Cons.IH [OF step] obtain ds where
    "map filter_condition query = map Inr ds" "h' = h @ [a, (cs @ [c]) @ ds]"
    by blast
  with c have "map filter_condition (kv # query) = map Inr (c # ds) \<and> h' = h @ [a, cs @ (c # ds)]"
    by simp
  then show ?case by blast
qed

lemma filter_loop_error:
  "filter_loop (Suc (length h)) query (h @ [a, cs]) = (Inl e, h') \<Longrightarrow>
     Inl e \<in> set (map filter_condition query)"
proof (induction query arbitrary: cs)
  case Nil
  then show ?case by simp
next
  case (Cons kv query)
  show ?case
  proof (cases "filter_condition kv")
    case (Inl e')
    with Cons.prems show ?thesis by (simp add: filter_loop_step)
  next
    case (Inr c)
    with Cons.prems have "filter_loop (Suc (length h)) query (h @ [a, cs @ [c]]) = (Inl e, h')"
      by (simp add: filter_loop_step list_append_last)
    from Cons.IH [OF this] show ?thesis by simp
  qed
qed

lemma filter_condition_literal:
  assumes "split_dunder [] key = [field, operation]"
    and "map_of QUERY_OPERATIONS operation = Some opcode"
  shows "filter_condition (key, StrVal v) =
      Inr (''addcond'' @ [CHR 0x00] @ field @ [CHR 0x00] @ opcode @ [CHR 0x00] @ v)"
    and "filter_condition (key, IterVal vs) =
      Inr (''addcond'' @ [CHR 0x00] @ field @ [CHR 0x00] @ opcode @ [CHR 0x00] @ join '','' vs)"
  using assms by (simp_all add: filter_condition_def)

lemma filter_loop_keeps:
  "filter_loop (Suc (length h)) query (h @ [a, cs]) = (r, h') \<Longrightarrow> take (length h) h' = h"
proof (induction query arbitrary: cs)
  case Nil
  then show ?case by auto
next
  case (Cons kv query)
  obtain key val where kv: "kv = (key, val)" by (cases kv)
  from Cons.prems consider "h' = h @ [a, cs]"
    | c where "filter_loop (Suc (length h)) query (h @ [a, cs @ [c]]) = (r, h')"
    unfolding kv
    by (auto simp: Let_def list_append_last split: if_splits option.splits fval.splits)
  then show ?case
  proof cases
    case 1
    then show ?thesis by simp
  next
    case 2
    then show ?thesis by (rule Cons.IH)
  qed
qed

lemma str_int_dirs:
  "str_int RDBQOSTRASC = ''0''" "str_int RDBQOSTRDESC = ''1''"
  "str_int RDBQONUMASC = ''2''" "str_int RDBQONUMDESC = ''3''"
  by (simp_all add: RDBQOSTRASC_def RDBQOSTRDESC_def RDBQONUMASC_def RDBQONUMDESC_def
      str_int_def digits.simps char_eval)

lemma order_by_num_eq:
  assumes "conditions q < length h"
  shows "order_by_num q field h =
    (\<lparr>ptt = ptt q, conditions = Suc (length h), result_cache = None\<rparr>,
     h @ [[], h ! conditions q @
       [''setorder'' @ [CHR 0x00] @
        (if take 1 field = ''-'' then drop 1 field @ [CHR 0x00] @ ''3''
         else field @ [CHR 0x00] @ ''2'')]])"
  by (simp add: order_by_num_def clone_eq [OF assms] list_append_last str_int_dirs)

lemma order_by_str_eq:
  assumes "conditions q < length h"
  shows "order_by_str q field h =
    (\<lparr>ptt = ptt q, conditions = Suc (length h), result_cache = None\<rparr>,
     h @ [[], h ! conditions q @
       [''setorder'' @ [CHR 0x00] @
        (if take 1 field = ''-'' then drop 1 field @ [CHR 0x00] @ ''1''
         else field @ [CHR 0x00] @ ''0'')]])"
  by (simp add: order_by_str_def clone_eq [OF assms] list_append_last str_int_dirs)

text \<open>
  Claim C4. For every Query \<open>q\<close> whose condition list is in the heap: \<open>order_by_num\<close>,
  \<open>order_by_str\<close> and a successful \<open>filter\<close> return a new Query whose condition list is a
  list of its own, a copy of the list of \<open>q\<close> with the new conditions appended: for the
  orderings the \<^verbatim>\<open>setorder\<close> condition of the field and direction, for \<open>filter\<close> the
  condition of each keyword argument, in order, which is \<^verbatim>\<open>addcond\<close>, field, opcode and
  value joined by zero bytes. The list of \<open>q\<close> and every other list that existed are
  unchanged, and the new Query starts with an unpopulated cache whatever the cache of \<open>q\<close>
  holds. A \<open>filter\<close> that raises leaves the existing lists unchanged as well, and raises
  what the condition of one of its keyword arguments raises.
\<close>

theorem derivation_copies:
  assumes "conditions q < length h"
  shows "derived q h (fst (order_by_num q field h)) (snd (order_by_num q field h))
           [''setorder'' @ [CHR 0x00] @
            (if take 1 field = ''-'' then drop 1 field @ [CHR 0x00] @ ''3''
             else field @ [CHR 0x00] @ ''2'')]
    \<and> derived q h (fst (order_by_str q field h)) (snd (order_by_str q field h))
           [''setorder'' @ [CHR 0x00] @
            (if take 1 field = ''-'' then drop 1 field @ [CHR 0x00] @ ''1''
             else field @ [CHR 0x00] @ ''0'')]
    \<and> (case filter_q q query h of
          (Inr q', h') \<Rightarrow>
            \<exists>cs. map filter_condition query = map Inr cs \<and> derived q h q' h' cs
        | (Inl e, h') \<Rightarrow>
            take (length h) h' = h \<and> Inl e \<in> set (map filter_condition query))
    \<and> (split_dunder [] key = [fld, operation]
          \<and> map_of QUERY_OPERATIONS operation = Some opcode \<longrightarrow>
        filter_condition (key, StrVal v) =
          Inr (''addcond'' @ [CHR 0x00] @ fld @ [CHR 0x00] @ opcode @ [CHR 0x00] @ v)
        \<and> filter_condition (key, IterVal vs) =
          Inr (''addcond'' @ [CHR 0x00] @ fld @ [CHR 0x00] @ opcode @ [CHR 0x00]
               @ join '','' vs))"
proof -
  have 1: "derived q h (fst (order_by_num q field h)) (snd (order_by_num q field h))
           [''setorder'' @ [CHR 0x00] @
            (if take 1 field = ''-'' then drop 1 field @ [CHR 0x00] @ ''3''
             else field @ [CHR 0x00] @ ''2'')]"
    unfolding order_by_num_eq [OF assms] fst_conv snd_conv by (rule derivedI [OF assms])
  have 2: "derived q h (fst (order_by_str q field h)) (snd (order_by_str q field h))
           [''setorder'' @ [CHR 0x00] @
            (if take 1 field = ''-'' then drop 1 field @ [CHR 0x00] @ ''1''
             else field @ [CHR 0x00] @ ''0'')]"
    unfolding order_by_str_eq [OF assms] fst_conv snd_conv by (rule derivedI [OF assms])
  have 3: "(case filter_q q query h of
          (Inr q', h') \<Rightarrow>
            \<exists>cs. map filter_condition query = map Inr cs \<and> derived q h q' h' cs
        | (Inl e, h') \<Rightarrow>
            take (length h) h' = h \<and> Inl e \<in> set (map filter_condition query))"
  proof -
    let ?q' = "\<lparr>ptt = ptt q, conditions = Suc (length h), result_cache = None\<rparr>"
    obtain r h' where fl: "filter_loop (Suc (length h)) query (h @ [[], h ! conditions q]) = (r, h')"
      by (cases "filter_loop (Suc (length h)) query (h @ [[], h ! conditions q])")
    show ?thesis
    proof (cases r)
      case (Inl e)
      with fl filter_loop_keeps [OF fl] filter_loop_error show ?thesis
        by (simp add: filter_q_def clone_eq [OF assms])
    next
      case (Inr u)
      with fl filter_loop_exact obtain ds where
        ds: "map filter_condition query = map Inr ds" "h' = h @ [[], h ! conditions q @ ds]"
        by blast
      have "derived q h ?q' h' ds"
        unfolding ds(2) by (rule derivedI [OF assms])
      with ds(1) fl Inr show ?thesis
        by (auto simp: filter_q_def clone_eq [OF assms])
    qed
  qed
  have 4: "split_dunder [] key = [fld, operation]
          \<and> map_of QUERY_OPERATIONS operation = Some opcode \<longrightarrow>
        filter_condition (key, StrVal v) =
          Inr (''addcond'' @ [CHR 0x00] @ fld @ [CHR 0x00] @ opcode @ [CHR 0x00] @ v)
        \<and> filter_condition (key, IterVal vs) =
          Inr (''addcond'' @ [CHR 0x00] @ fld @ [CHR 0x00] @ opcode @ [CHR 0x00]
               @ join '','' vs)"
    using filter_condition_literal by blast
  from 1 2 3 4 show ?thesis by blast
qed

theorem derivation_copies_witness:
  "order_by_num \<lparr>ptt = 0, conditions = 0, result_cache = Some [''k1'']\<rparr> ''-age'' [[''c0'']] =
     (\<lparr>ptt = 0, conditions = 2, result_cache = None\<rparr>,
      [[''c0''], [], [''c0'', ''setorder'' @ [CHR 0x00] @ ''age'' @ [CHR 0x00] @ ''3'']])
   \<and> filter_q \<lparr>ptt = 0, conditions = 0, result_cache = Some [''k1'']\<rparr>
        [(''name__streq'', StrVal ''bob''), (''age__numbt'', IterVal [''20'', ''30''])]
        [[''c0'']] =
     (Inr \<lparr>ptt = 0, conditions = 2, result_cache = None\<rparr>,
      [[''c0''], [],
       [''c0'',
        ''addcond'' @ [CHR 0x00] @ ''name'' @ [CHR 0x00] @ ''0'' @ [CHR 0x00] @ ''bob'',
        ''addcond'' @ [CHR 0x00] @ ''age'' @ [CHR 0x00] @ ''13'' @ [CHR 0x00] @ ''20,30'']])
   \<and> derived \<lparr>ptt = 0, conditions = 0, result_cache = Some [''k1'']\<rparr> [[''c0'']]
        \<lparr>ptt = 0, conditions = 2, result_cache = None\<rparr>
        [[''c0''], [], [''c0'', ''setorder'' @ [CHR 0x00] @ ''age'' @ [CHR 0x00] @ ''3'']]
        [''setorder'' @ [CHR 0x00] @ ''age'' @ [CHR 0x00] @ ''3'']
   \<and> derived \<lparr>ptt = 0, conditions = 0, result_cache = Some [''k1'']\<rparr> [[''c0'']]
        \<lparr>ptt = 0, conditions = 2, result_cache = None\<rparr>
        [[''c0''], [],
         [''c0'',
          ''addcond'' @ [CHR 0x00] @ ''name'' @ [CHR 0x00] @ ''0'' @ [CHR 0x00] @ ''bob'',
          ''addcond'' @ [CHR 0x00] @ ''age'' @ [CHR 0x00] @ ''13'' @ [CHR 0x00] @ ''20,30'']]
        [''addcond'' @ [CHR 0x00] @ ''name'' @ [CHR 0x00] @ ''0'' @ [CHR 0x00] @ ''bob'',
         ''addcond'' @ [CHR 0x00] @ ''age'' @ [CHR 0x00] @ ''13'' @ [CHR 0x00] @ ''20,30'']
   \<and> filter_condition (''name__streq'', StrVal ''bob'') =
        Inr (''addcond'' @ [CHR 0x00] @ ''name'' @ [CHR 0x00] @ ''0'' @ [CHR 0x00] @ ''bob'')"
proof -
  let ?q = "\<lparr>ptt = 0, conditions = 0, result_cache = Some [''k1'']\<rparr>"
  let ?h = "[[''c0'']] :: heap"
  let ?kw = "[(''name__streq'', StrVal ''bob''), (''age__numbt'', IterVal [''20'', ''30''])]"
  have wf: "conditions ?q < length ?h" by simp
  have a: "order_by_num ?q ''-age'' ?h =
     (\<lparr>ptt = 0, conditions = 2, result_cache = None\<rparr>,
      [[''c0''], [], [''c0'', ''setorder'' @ [CHR 0x00] @ ''age'' @ [CHR 0x00] @ ''3'']])"
    by (simp add: order_by_num_eq [OF wf])
  have b: "filter_q ?q ?kw ?h =
     (Inr \<lparr>ptt = 0, conditions = 2, result_cache = None\<rparr>,
      [[''c0''], [],
       [''c0'',
        ''addcond'' @ [CHR 0x00] @ ''name'' @ [CHR 0x00] @ ''0'' @ [CHR 0x00] @ ''bob'',
        ''addcond'' @ [CHR 0x00] @ ''age'' @ [CHR 0x00] @ ''13'' @ [CHR 0x00] @ ''20,30'']])"
    by (simp add: filter_q_def clone_eq [OF wf] Let_def QUERY_OPERATIONS_def list_append_def)
  have sp: "split_dunder [] ''name__streq'' = [''name'', ''streq'']" by simp
  have op: "map_of QUERY_OPERATIONS ''streq'' = Some ''0''" by (simp add: QUERY_OPERATIONS_def)
  have fc: "map filter_condition ?kw =
      map Inr [''addcond'' @ [CHR 0x00] @ ''name'' @ [CHR 0x00] @ ''0'' @ [CHR 0x00] @ ''bob'',
               ''addcond'' @ [CHR 0x00] @ ''age'' @ [CHR 0x00] @ ''13'' @ [CHR 0x00] @ ''20,30'']"
    by (simp add: filter_condition_def QUERY_OPERATIONS_def)
  note t = derivation_copies [OF wf, where field = "''-age''" and query = ?kw
      and key = "''name__streq''" and fld = "''name''" and operation = "''streq''"
      and opcode = "''0''" and v = "''bob''" and vs = "[]"]
  from t [THEN conjunct1] have 1: "derived ?q ?h \<lparr>ptt = 0, conditions = 2, result_cache = None\<rparr>
        [[''c0''], [], [''c0'', ''setorder'' @ [CHR 0x00] @ ''age'' @ [CHR 0x00] @ ''3'']]
        [''setorder'' @ [CHR 0x00] @ ''age'' @ [CHR 0x00] @ ''3'']"
    by (simp add: a)
  from t [THEN conjunct2, THEN conjunct2, THEN conjunct1]
  have "\<exists>cs. map filter_condition ?kw = map Inr cs \<and>
      derived ?q ?h \<lparr>ptt = 0, conditions = 2, result_cache = None\<rparr>
        [[''c0''], [],
         [''c0'',
          ''addcond'' @ [CHR 0x00] @ ''name'' @ [CHR 0x00] @ ''0'' @ [CHR 0x00] @ ''bob'',
          ''addcond'' @ [CHR 0x00] @ ''age'' @ [CHR 0x00] @ ''13'' @ [CHR 0x00] @ ''20,30'']] cs"
    by (simp add: b)
  then obtain cs where cs: "map filter_condition ?kw = map Inr cs"
    and d: "derived ?q ?h \<lparr>ptt = 0, conditions = 2, result_cache = None\<rparr>
        [[''c0''], [],
         [''c0'',
          ''addcond'' @ [CHR 0x00] @ ''name'' @ [CHR 0x00] @ ''0'' @ [CHR 0x00] @ ''bob'',
          ''addcond'' @ [CHR 0x00] @ ''age'' @ [CHR 0x00] @ ''13'' @ [CHR 0x00] @ ''20,30'']] cs"
    by blast
  from cs fc have "map Inr cs =
      (map Inr [''addcond'' @ [CHR 0x00] @ ''name'' @ [CHR 0x00] @ ''0'' @ [CHR 0x00] @ ''bob'',
               ''addcond'' @ [CHR 0x00] @ ''age'' @ [CHR 0x00] @ ''13'' @ [CHR 0x00] @ ''20,30'']
        :: (exn + string) list)"
    by simp
  then have "cs = [''addcond'' @ [CHR 0x00] @ ''name'' @ [CHR 0x00] @ ''0'' @ [CHR 0x00] @ ''bob'',
               ''addcond'' @ [CHR 0x00] @ ''age'' @ [CHR 0x00] @ ''13'' @ [CHR 0x00] @ ''20,30'']"
    by (simp only: inj_map_eq_map [OF inj_Inr])
  with d have 2: "derived ?q ?h \<lparr>ptt = 0, conditions = 2, result_cache = None\<rparr>
        [[''c0''], [],
         [''c0'',
          ''addcond'' @ [CHR 0x00] @ ''name'' @ [CHR 0x00] @ ''0'' @ [CHR 0x00] @ ''bob'',
          ''addcond'' @ [CHR 0x00] @ ''age'' @ [CHR 0x00] @ ''13'' @ [CHR 0x00] @ ''20,30'']]
        [''addcond'' @ [CHR 0x00] @ ''name'' @ [CHR 0x00] @ ''0'' @ [CHR 0x00] @ ''bob'',
         ''addcond'' @ [CHR 0x00] @ ''age'' @ [CHR 0x00] @ ''13'' @ [CHR 0x00] @ ''20,30'']"
    by simp
  from t [THEN conjunct2, THEN conjunct2, THEN conjunct2] sp op
  have 3: "filter_condition (''name__streq'', StrVal ''bob'') =
        Inr (''addcond'' @ [CHR 0x00] @ ''name'' @ [CHR 0x00] @ ''0'' @ [CHR 0x00] @ ''bob'')"
    by (simp only: simp_thms)
  show ?thesis
    by (intro conjI) (rule a, rule b, rule 1, rule 2, rule 3)
qed

text \<open>
  Appending to the condition list of a derived Query afterwards does not reach the list of
  the Query it was derived from.
\<close>

lemma derived_append_apart:
  assumes "derived q h q' h' cs"
  shows "list_append (conditions q') x h' ! conditions q = h ! conditions q"
  using assms by (simp add: derived_def list_append_def)

end
